theory Spec2Isabelle
  imports Complex_Main "HOL-Library.Word" "HOL-Library.Sublist"
begin

unbundle bit_operations_syntax

section \<open>The net package: addresses as the client and the server use them\<close>

text \<open>
  Go's \<open>net.IP\<close> is a byte slice: 4 bytes for an IPv4 address, 16 bytes for an IPv6
  address or an IPv4 address in its IPv6-mapped form, and length 0 for the nil address.
  Every other length is an invalid address that the library still renders and compares.
  The functions below follow the library functions the repository calls
  (\<open>To4\<close>, \<open>To16\<close>, \<open>Equal\<close>, \<open>IsUnspecified\<close>, \<open>String\<close>); a nil slice is
  the empty list.
\<close>

type_synonym byte = "8 word"
type_synonym ip = "byte list"

definition v4InV6Prefix :: "byte list" where
  "v4InV6Prefix = [0, 0, 0, 0, 0, 0, 0, 0, 0, 0, 0xff, 0xff]"

definition IPv4 :: "byte \<Rightarrow> byte \<Rightarrow> byte \<Rightarrow> byte \<Rightarrow> ip" where
  "IPv4 a b c d = v4InV6Prefix @ [a, b, c, d]"

definition IPv4zero :: ip where
  "IPv4zero = IPv4 0 0 0 0"

definition IPv6unspecified :: ip where
  "IPv6unspecified = replicate 16 0"

definition isZeros :: "byte list \<Rightarrow> bool" where
  "isZeros p = list_all (\<lambda>x. x = 0) p"

definition To4 :: "ip \<Rightarrow> ip" where
  "To4 p =
     (if length p = 4 then p
      else if length p = 16 \<and> isZeros (take 10 p) \<and> p ! 10 = 0xff \<and> p ! 11 = 0xff
        then drop 12 p
      else [])"

definition To16 :: "ip \<Rightarrow> ip" where
  "To16 p =
     (if length p = 4 then IPv4 (p ! 0) (p ! 1) (p ! 2) (p ! 3)
      else if length p = 16 then p
      else [])"

definition IP_Equal :: "ip \<Rightarrow> ip \<Rightarrow> bool" where
  "IP_Equal p x =
     (if length p = length x then p = x
      else if length p = 4 \<and> length x = 16 then take 12 x = v4InV6Prefix \<and> p = drop 12 x
      else if length p = 16 \<and> length x = 4 then take 12 p = v4InV6Prefix \<and> drop 12 p = x
      else False)"

definition IsUnspecified :: "ip \<Rightarrow> bool" where
  "IsUnspecified p = (IP_Equal p IPv4zero \<or> IP_Equal p IPv6unspecified)"

subsection \<open>Text forms\<close>

definition digits :: string where
  "digits = ''0123456789''"

definition hexDigit :: string where
  "hexDigit = ''0123456789abcdef''"

fun uitoa :: "nat \<Rightarrow> string" where
  "uitoa n = (if n < 10 then [digits ! n] else uitoa (n div 10) @ [digits ! (n mod 10)])"

declare uitoa.simps [simp del]

definition Itoa :: "int \<Rightarrow> string" where
  "Itoa i = (if i < 0 then ''-'' @ uitoa (nat (- i)) else uitoa (nat i))"

fun appendHex :: "nat \<Rightarrow> string" where
  "appendHex n =
     (if n < 16 then [hexDigit ! n] else appendHex (n div 16) @ [hexDigit ! (n mod 16)])"

declare appendHex.simps [simp del]

definition hexString :: "byte list \<Rightarrow> string" where
  "hexString bs = concat (map (\<lambda>t. [hexDigit ! (unat t div 16), hexDigit ! (unat t mod 16)]) bs)"

text \<open>The eight 16-bit groups of a 16-byte address.\<close>

fun groups :: "byte list \<Rightarrow> nat list" where
  "groups (hi # lo # rest) = (unat hi * 256 + unat lo) # groups rest"
| "groups _ = []"

definition run_end :: "nat list \<Rightarrow> nat \<Rightarrow> nat" where
  "run_end g i = i + length (takeWhile (\<lambda>x. x = 0) (drop i g))"

text \<open>
  The search for the longest run of zero groups; \<open>(e0, e1)\<close> starts at \<open>(-1, -1)\<close>,
  and a run that is recorded moves the index past it.
\<close>

function find_run :: "nat list \<Rightarrow> nat \<Rightarrow> int \<times> int \<Rightarrow> int \<times> int" where
  "find_run g i e =
     (if i < length g then
        (let j = run_end g i in
         if j > i \<and> int j - int i > snd e - fst e
           then find_run g (j + 1) (int i, int j)
           else find_run g (i + 1) e)
      else e)"
  by pat_completeness auto
termination
  by (relation "measure (\<lambda>(g, i, e). length g - i)") (auto simp: run_end_def)

declare find_run.simps [simp del]

definition zero_run :: "nat list \<Rightarrow> int \<times> int" where
  "zero_run g = (let e = find_run g 0 (-1, -1) in if snd e - fst e \<le> 1 then (-1, -1) else e)"

text \<open>
  The printing loop. Where the index meets \<open>e0\<close> the library writes \<open>::\<close> and jumps to
  \<open>e1\<close>; a recorded run always has \<open>e0 < e1\<close>, which is the guard written here.
\<close>

function print6 :: "nat list \<Rightarrow> int \<times> int \<Rightarrow> nat \<Rightarrow> string" where
  "print6 g e i =
     (if i < length g then
        (if int i = fst e \<and> fst e < snd e then
           '':'' @ '':'' @ (if nat (snd e) < length g
              then appendHex (g ! nat (snd e)) @ print6 g e (nat (snd e) + 1)
              else [])
         else (if i > 0 then '':'' else []) @ appendHex (g ! i) @ print6 g e (i + 1))
      else [])"
  by pat_completeness auto
termination
  by (relation "measure (\<lambda>(g, e, i). length g - i)") auto

declare print6.simps [simp del]

definition dotted :: "byte list \<Rightarrow> string" where
  "dotted p4 = uitoa (unat (p4 ! 0)) @ ''.'' @ uitoa (unat (p4 ! 1)) @ ''.'' @
     uitoa (unat (p4 ! 2)) @ ''.'' @ uitoa (unat (p4 ! 3))"

definition IP_String :: "ip \<Rightarrow> string" where
  "IP_String p =
     (if length p = 0 then ''<nil>''
      else if length (To4 p) = 4 then dotted (To4 p)
      else if length p \<noteq> 16 then ''?'' @ hexString p
      else print6 (groups p) (zero_run (groups p)) 0)"

definition ipEmptyString :: "ip \<Rightarrow> string" where
  "ipEmptyString p = (if length p = 0 then [] else IP_String p)"

definition JoinHostPort :: "string \<Rightarrow> string \<Rightarrow> string" where
  "JoinHostPort host port =
     (if CHR '':'' \<in> set host then ''['' @ host @ '']:'' @ port else host @ '':'' @ port)"

text \<open>
  \<open>net.UDPAddr\<close>. The repository reaches addresses through pointers; a pointer that
  can be nil in a result (the \<open>Mapped\<close> field of a timeout record, the firewall probe)
  is an option here, and the string method accepts the nil pointer as the library's does.
\<close>

record udpaddr =
  IP :: ip
  Port :: int
  Zone :: string

definition UDPAddr_String :: "udpaddr option \<Rightarrow> string" where
  "UDPAddr_String a =
     (case a of
        None \<Rightarrow> ''<nil>''
      | Some u \<Rightarrow>
          (if Zone u \<noteq> [] then JoinHostPort (ipEmptyString (IP u) @ ''%'' @ Zone u) (Itoa (Port u))
           else JoinHostPort (ipEmptyString (IP u)) (Itoa (Port u))))"

definition copyUDPAddr :: "udpaddr \<Rightarrow> udpaddr" where
  "copyUDPAddr a = \<lparr>IP = IP a, Port = Port a, Zone = []\<rparr>"

section \<open>The result of a probe\<close>

text \<open>
  \<open>Local\<close> and \<open>Remote\<close> are set by the prober in every record it builds and the
  analyzer reads them unconditionally; they are modelled by the address itself.
  \<open>Mapped\<close> is left nil in a timeout record and \<open>FirewallProbes\<close> is nil when no
  destination answered, so both are options, and a read through a nil \<open>Mapped\<close> is the
  run-time panic \<open>NilDeref\<close>. The two probe types both have fields called Local and
  Remote; the firewall probe's carry the suffix \<open>_fw\<close>.
\<close>

datatype panic = NilDeref

record mapping_probe =
  Local :: udpaddr
  Mapped :: "udpaddr option"
  Remote :: udpaddr
  Timeout :: bool

record firewall_probe =
  Local_fw :: udpaddr
  Remote_fw :: udpaddr
  Received :: "udpaddr list"

record result =
  LocalIPs :: "ip list"
  MappingProbes :: "mapping_probe list"
  FirewallProbes :: "firewall_probe option"

record analysis =
  NoData :: bool
  NoNAT :: bool
  MappingVariesByDestIP :: bool
  MappingVariesByDestPort :: bool
  FirewallEnforcesDestIP :: bool
  FirewallEnforcesDestPort :: bool
  MappingPreservesSourcePort :: bool
  MultiplePublicIPs :: bool
  FilteredEgress :: "int list"

definition Sprintf_bool :: "bool \<Rightarrow> string" where
  "Sprintf_bool t = (if t then ''true'' else ''false'')"

definition key :: "mapping_probe \<Rightarrow> string" where
  "key p = UDPAddr_String (Some (Local p)) @ '' '' @ UDPAddr_String (Mapped p) @ '' '' @
     UDPAddr_String (Some (Remote p)) @ '' '' @ Sprintf_bool (Timeout p)"

section \<open>The analyzer\<close>

text \<open>
  Each predicate is the source's loop as a recursive function over the probe list, with
  the early returns as they stand. A Go map to \<open>bool\<close> in which only \<open>true\<close> is ever
  stored is the set of its keys: a lookup is membership and \<open>len\<close> is the cardinality.
\<close>

fun noData_loop :: "mapping_probe list \<Rightarrow> bool" where
  "noData_loop [] = True"
| "noData_loop (probe # rest) = (if \<not> Timeout probe then False else noData_loop rest)"

definition noData :: "result \<Rightarrow> bool" where
  "noData r = (if length (MappingProbes r) = 0 then True else noData_loop (MappingProbes r))"

fun noNAT_loop :: "string set \<Rightarrow> mapping_probe list \<Rightarrow> panic + bool" where
  "noNAT_loop ips [] = Inr True"
| "noNAT_loop ips (probe # rest) =
     (if Timeout probe then noNAT_loop ips rest
      else case Mapped probe of
             None \<Rightarrow> Inl NilDeref
           | Some m \<Rightarrow> if IP_String (IP m) \<notin> ips then Inr False else noNAT_loop ips rest)"

fun noNAT_ips :: "string set \<Rightarrow> ip list \<Rightarrow> string set" where
  "noNAT_ips ips [] = ips"
| "noNAT_ips ips (ip # rest) = noNAT_ips (insert (IP_String ip) ips) rest"

definition noNAT :: "result \<Rightarrow> panic + bool" where
  "noNAT r = noNAT_loop (noNAT_ips {} (LocalIPs r)) (MappingProbes r)"

fun mappingVariesByDestIP_loop ::
  "string \<Rightarrow> ip \<Rightarrow> ip \<Rightarrow> int \<Rightarrow> mapping_probe list \<Rightarrow> panic + bool" where
  "mappingVariesByDestIP_loop local remoteIP mappedIP mappedPort [] = Inr False"
| "mappingVariesByDestIP_loop local remoteIP mappedIP mappedPort (probe # rest) =
     (if Timeout probe then mappingVariesByDestIP_loop local remoteIP mappedIP mappedPort rest
      else if UDPAddr_String (Some (Local probe)) \<noteq> local then
        (case Mapped probe of
           None \<Rightarrow> Inl NilDeref
         | Some m \<Rightarrow>
             mappingVariesByDestIP_loop (UDPAddr_String (Some (Local probe)))
               (IP (Remote probe)) (IP m) (Port m) rest)
      else if IP_Equal (IP (Remote probe)) remoteIP then
        mappingVariesByDestIP_loop local remoteIP mappedIP mappedPort rest
      else
        (case Mapped probe of
           None \<Rightarrow> Inl NilDeref
         | Some m \<Rightarrow>
             if \<not> IP_Equal (IP m) mappedIP \<or> Port m \<noteq> mappedPort then Inr True
             else mappingVariesByDestIP_loop local remoteIP mappedIP mappedPort rest))"

definition mappingVariesByDestIP :: "result \<Rightarrow> panic + bool" where
  "mappingVariesByDestIP r = mappingVariesByDestIP_loop [] [] [] 0 (MappingProbes r)"

fun mappingVariesByDestPort_loop ::
  "string \<Rightarrow> int \<Rightarrow> ip \<Rightarrow> int \<Rightarrow> mapping_probe list \<Rightarrow> panic + bool" where
  "mappingVariesByDestPort_loop local remotePort mappedIP mappedPort [] = Inr False"
| "mappingVariesByDestPort_loop local remotePort mappedIP mappedPort (probe # rest) =
     (if Timeout probe then mappingVariesByDestPort_loop local remotePort mappedIP mappedPort rest
      else if UDPAddr_String (Some (Local probe)) \<noteq> local then
        (case Mapped probe of
           None \<Rightarrow> Inl NilDeref
         | Some m \<Rightarrow>
             mappingVariesByDestPort_loop (UDPAddr_String (Some (Local probe)))
               (Port (Remote probe)) (IP m) (Port m) rest)
      else if Port (Remote probe) = remotePort then
        mappingVariesByDestPort_loop local remotePort mappedIP mappedPort rest
      else
        (case Mapped probe of
           None \<Rightarrow> Inl NilDeref
         | Some m \<Rightarrow>
             if \<not> IP_Equal (IP m) mappedIP \<or> Port m \<noteq> mappedPort then Inr True
             else mappingVariesByDestPort_loop local remotePort mappedIP mappedPort rest))"

definition mappingVariesByDestPort :: "result \<Rightarrow> panic + bool" where
  "mappingVariesByDestPort r = mappingVariesByDestPort_loop [] 0 [] 0 (MappingProbes r)"

fun firewallEnforcesDestIP_loop :: "ip \<Rightarrow> udpaddr list \<Rightarrow> bool" where
  "firewallEnforcesDestIP_loop outIP [] = True"
| "firewallEnforcesDestIP_loop outIP (recv # rest) =
     (if \<not> IP_Equal (IP recv) outIP then False else firewallEnforcesDestIP_loop outIP rest)"

definition firewallEnforcesDestIP :: "result \<Rightarrow> bool" where
  "firewallEnforcesDestIP r =
     (case FirewallProbes r of
        None \<Rightarrow> False
      | Some fp \<Rightarrow> firewallEnforcesDestIP_loop (IP (Remote_fw fp)) (Received fp))"

fun firewallEnforcesDestPort_loop :: "int \<Rightarrow> udpaddr list \<Rightarrow> bool" where
  "firewallEnforcesDestPort_loop outPort [] = True"
| "firewallEnforcesDestPort_loop outPort (recv # rest) =
     (if Port recv \<noteq> outPort then False else firewallEnforcesDestPort_loop outPort rest)"

definition firewallEnforcesDestPort :: "result \<Rightarrow> bool" where
  "firewallEnforcesDestPort r =
     (case FirewallProbes r of
        None \<Rightarrow> False
      | Some fp \<Rightarrow> firewallEnforcesDestPort_loop (Port (Remote_fw fp)) (Received fp))"

fun multiplePublicIPs_loop :: "string set \<Rightarrow> mapping_probe list \<Rightarrow> panic + string set" where
  "multiplePublicIPs_loop ips [] = Inr ips"
| "multiplePublicIPs_loop ips (probe # rest) =
     (if Timeout probe then multiplePublicIPs_loop ips rest
      else case Mapped probe of
             None \<Rightarrow> Inl NilDeref
           | Some m \<Rightarrow> multiplePublicIPs_loop (insert (IP_String (IP m)) ips) rest)"

definition multiplePublicIPs :: "result \<Rightarrow> panic + bool" where
  "multiplePublicIPs r =
     (case multiplePublicIPs_loop {} (MappingProbes r) of
        Inl e \<Rightarrow> Inl e
      | Inr ips \<Rightarrow> Inr (card ips > 1))"

fun working_loop :: "int set \<Rightarrow> mapping_probe list \<Rightarrow> int set" where
  "working_loop working [] = working"
| "working_loop working (probe # rest) =
     (if \<not> Timeout probe then working_loop (insert (Port (Remote probe)) working) rest
      else working_loop working rest)"

fun filteredEgress_loop :: "int set \<Rightarrow> int list \<Rightarrow> mapping_probe list \<Rightarrow> int list" where
  "filteredEgress_loop working ret [] = ret"
| "filteredEgress_loop working ret (probe # rest) =
     (if Timeout probe \<and> Port (Remote probe) \<notin> working
        then filteredEgress_loop (insert (Port (Remote probe)) working)
               (ret @ [Port (Remote probe)]) rest
      else filteredEgress_loop working ret rest)"

text \<open>\<open>sort.Ints\<close> sorts in increasing order; \<open>sort\<close> is the list library's.\<close>

definition filteredEgress :: "result \<Rightarrow> int list" where
  "filteredEgress r =
     sort (filteredEgress_loop (working_loop {} (MappingProbes r)) [] (MappingProbes r))"

subsection \<open>Port preservation and its floating-point comparison\<close>

text \<open>
  The ratio is computed in \<open>float64\<close>. A value of that type is a NaN, an infinity or a
  finite number; the finite results of a conversion or a division are rounded to the
  nearest number with a 53-bit significand, ties to even (\<open>round64\<close>). The numbers
  that occur here are counts of probes and their quotients, far from the overflow and
  the subnormal range, so \<open>round64\<close> leaves the exponent unbounded; both zeros that
  occur are positive.
\<close>

datatype float64 = NaN | PosInf | NegInf | Finite real

definition round_even :: "real \<Rightarrow> int" where
  "round_even x =
     (let f = \<lfloor>x\<rfloor> in
      if x - of_int f < 1 / 2 then f
      else if x - of_int f > 1 / 2 then f + 1
      else if even f then f else f + 1)"

definition round64 :: "real \<Rightarrow> real" where
  "round64 x =
     (if x = 0 then 0
      else (let e = \<lfloor>log 2 \<bar>x\<bar>\<rfloor>
            in of_int (round_even (x * 2 powr (52 - of_int e))) * 2 powr (of_int e - 52)))"

definition float64_of_int :: "int \<Rightarrow> float64" where
  "float64_of_int n = Finite (round64 (of_int n))"

definition float64_const :: "real \<Rightarrow> float64" where
  "float64_const c = Finite (round64 c)"

fun float64_div :: "float64 \<Rightarrow> float64 \<Rightarrow> float64" where
  "float64_div (Finite x) (Finite y) =
     (if y = 0 then (if x = 0 then NaN else if x > 0 then PosInf else NegInf)
      else Finite (round64 (x / y)))"
| "float64_div (Finite x) PosInf = Finite 0"
| "float64_div (Finite x) NegInf = Finite 0"
| "float64_div PosInf (Finite y) = (if y \<ge> 0 then PosInf else NegInf)"
| "float64_div NegInf (Finite y) = (if y \<ge> 0 then NegInf else PosInf)"
| "float64_div _ _ = NaN"

fun float64_ge :: "float64 \<Rightarrow> float64 \<Rightarrow> bool" where
  "float64_ge NaN _ = False"
| "float64_ge _ NaN = False"
| "float64_ge (Finite x) (Finite y) = (x \<ge> y)"
| "float64_ge PosInf _ = True"
| "float64_ge _ NegInf = True"
| "float64_ge _ _ = False"

fun mappingPreservesSourcePort_loop ::
  "int \<Rightarrow> int \<Rightarrow> mapping_probe list \<Rightarrow> panic + int \<times> int" where
  "mappingPreservesSourcePort_loop tot preserved [] = Inr (tot, preserved)"
| "mappingPreservesSourcePort_loop tot preserved (probe # rest) =
     (if Timeout probe then mappingPreservesSourcePort_loop tot preserved rest
      else case Mapped probe of
             None \<Rightarrow> Inl NilDeref
           | Some m \<Rightarrow>
               mappingPreservesSourcePort_loop (tot + 1)
                 (if Port (Local probe) = Port m then preserved + 1 else preserved) rest)"

definition mappingPreservesSourcePort :: "result \<Rightarrow> panic + bool" where
  "mappingPreservesSourcePort r =
     (case mappingPreservesSourcePort_loop 0 0 (MappingProbes r) of
        Inl e \<Rightarrow> Inl e
      | Inr (tot, preserved) \<Rightarrow>
          Inr (float64_ge (float64_div (float64_of_int preserved) (float64_of_int tot))
                 (float64_const (8 / 10))))"

subsection \<open>Analyze\<close>

text \<open>The fields are computed in the order of the struct literal; a panic ends the call.\<close>

definition Analyze :: "result \<Rightarrow> panic + analysis" where
  "Analyze r =
     (case noNAT r of Inl e \<Rightarrow> Inl e | Inr nonat \<Rightarrow>
      case mappingVariesByDestIP r of Inl e \<Rightarrow> Inl e | Inr byip \<Rightarrow>
      case mappingVariesByDestPort r of Inl e \<Rightarrow> Inl e | Inr byport \<Rightarrow>
      case mappingPreservesSourcePort r of Inl e \<Rightarrow> Inl e | Inr pres \<Rightarrow>
      case multiplePublicIPs r of Inl e \<Rightarrow> Inl e | Inr multi \<Rightarrow>
        Inr \<lparr>NoData = noData r,
             NoNAT = nonat,
             MappingVariesByDestIP = byip,
             MappingVariesByDestPort = byport,
             FirewallEnforcesDestIP = firewallEnforcesDestIP r,
             FirewallEnforcesDestPort = firewallEnforcesDestPort r,
             MappingPreservesSourcePort = pres,
             MultiplePublicIPs = multi,
             FilteredEgress = filteredEgress r\<rparr>)"

section \<open>Reporting: the string form of a result and its anonymization\<close>

definition newline :: string where
  "newline = [CHR 0x0A]"

definition probe_line :: "mapping_probe \<Rightarrow> string" where
  "probe_line probe =
     (if Timeout probe
        then ''    '' @ UDPAddr_String (Some (Local probe)) @ '' -> ??? -> '' @
             UDPAddr_String (Some (Remote probe)) @ '' (timeout)'' @ newline
      else ''    '' @ UDPAddr_String (Some (Local probe)) @ '' -> '' @
           UDPAddr_String (Mapped probe) @ '' -> '' @
           UDPAddr_String (Some (Remote probe)) @ newline)"

definition Result_String :: "result \<Rightarrow> string" where
  "Result_String r =
     (if length (MappingProbes r) = 0 then ''No data (did the probe fail?)''
      else ''Local IPs on the client:'' @ newline @
           concat (map (\<lambda>ip. ''    '' @ IP_String ip @ newline) (LocalIPs r)) @
           ''Mapping probes:'' @ newline @
           concat (map probe_line (MappingProbes r)) @
           (case FirewallProbes r of
              None \<Rightarrow> ''No firewall probe data.'' @ newline
            | Some fp \<Rightarrow>
                ''Firewall probe with outbound traffic '' @
                UDPAddr_String (Some (Local_fw fp)) @ '' -> '' @
                UDPAddr_String (Some (Remote_fw fp)) @ newline @
                concat (map (\<lambda>addr. ''    '' @ UDPAddr_String (Some addr) @ newline)
                          (Received fp))))"

text \<open>
  The closure \<open>anonymize\<close> owns a map from the string of an address to its replacement
  and two byte counters \<open>a\<close> and \<open>b\<close>. The map only ever holds addresses built by
  \<open>net.IPv4\<close>, which are not nil, so its nil test is the test for an absent key.
\<close>

record anon_state =
  ips_of :: "string \<rightharpoonup> ip"
  a_of :: byte
  b_of :: byte

definition anon_init :: anon_state where
  "anon_init = \<lparr>ips_of = Map.empty, a_of = 1, b_of = 1\<rparr>"

definition anonymize :: "ip \<Rightarrow> anon_state \<Rightarrow> ip \<times> anon_state" where
  "anonymize ip st =
     (if length ip = 0 \<or> IsUnspecified ip then (ip, st)
      else case ips_of st (IP_String ip) of
             Some ret \<Rightarrow> (ret, st)
           | None \<Rightarrow>
               (let ret = IPv4 (a_of st) (a_of st) (b_of st) (b_of st);
                    b' = b_of st + 1;
                    a' = (if b' = 0 then a_of st + 1 else a_of st)
                in (ret, \<lparr>ips_of = (ips_of st)(IP_String ip \<mapsto> ret), a_of = a', b_of = b'\<rparr>)))"

definition anonymize_addr :: "udpaddr \<Rightarrow> anon_state \<Rightarrow> udpaddr \<times> anon_state" where
  "anonymize_addr u st = (case anonymize (IP u) st of (ip', st') \<Rightarrow> (u\<lparr>IP := ip'\<rparr>, st'))"

fun anonymize_ips :: "ip list \<Rightarrow> anon_state \<Rightarrow> ip list \<times> anon_state" where
  "anonymize_ips [] st = ([], st)"
| "anonymize_ips (ip # rest) st =
     (case anonymize ip st of (ip', st1) \<Rightarrow>
      case anonymize_ips rest st1 of (rest', st2) \<Rightarrow> (ip' # rest', st2))"

fun anonymize_addrs :: "udpaddr list \<Rightarrow> anon_state \<Rightarrow> udpaddr list \<times> anon_state" where
  "anonymize_addrs [] st = ([], st)"
| "anonymize_addrs (u # rest) st =
     (case anonymize_addr u st of (u', st1) \<Rightarrow>
      case anonymize_addrs rest st1 of (rest', st2) \<Rightarrow> (u' # rest', st2))"

text \<open>
  The loop over the mapping probes writes through \<open>probe.Mapped\<close> for every probe,
  timeout records included.
\<close>

fun anonymize_probes ::
  "mapping_probe list \<Rightarrow> anon_state \<Rightarrow> panic + mapping_probe list \<times> anon_state" where
  "anonymize_probes [] st = Inr ([], st)"
| "anonymize_probes (probe # rest) st =
     (case anonymize_addr (Local probe) st of (l', st1) \<Rightarrow>
      case Mapped probe of
        None \<Rightarrow> Inl NilDeref
      | Some m \<Rightarrow>
          (case anonymize_addr m st1 of (m', st2) \<Rightarrow>
           case anonymize_addr (Remote probe) st2 of (r', st3) \<Rightarrow>
           case anonymize_probes rest st3 of
             Inl e \<Rightarrow> Inl e
           | Inr (rest', st4) \<Rightarrow>
               Inr (probe\<lparr>Local := l', Mapped := Some m', Remote := r'\<rparr> # rest', st4)))"

definition anonymize_firewall ::
  "firewall_probe \<Rightarrow> anon_state \<Rightarrow> firewall_probe \<times> anon_state" where
  "anonymize_firewall fp st =
     (case anonymize_addr (Local_fw fp) st of (l', st1) \<Rightarrow>
      case anonymize_addr (Remote_fw fp) st1 of (r', st2) \<Rightarrow>
      case anonymize_addrs (Received fp) st2 of (recv', st3) \<Rightarrow>
        (\<lparr>Local_fw = l', Remote_fw = r', Received = recv'\<rparr>, st3))"

definition Anonymize :: "result \<Rightarrow> panic + result" where
  "Anonymize r =
     (case anonymize_ips (LocalIPs r) anon_init of (ips', st1) \<Rightarrow>
      case anonymize_probes (MappingProbes r) st1 of
        Inl e \<Rightarrow> Inl e
      | Inr (probes', st2) \<Rightarrow>
          (case FirewallProbes r of
             None \<Rightarrow> Inr \<lparr>LocalIPs = ips', MappingProbes = probes', FirewallProbes = None\<rparr>
           | Some fp \<Rightarrow>
               Inr \<lparr>LocalIPs = ips', MappingProbes = probes',
                    FirewallProbes = Some (fst (anonymize_firewall fp st2))\<rparr>))"

section \<open>The wire: request frames and reflections\<close>

text \<open>
  \<open>transmit\<close> starts one goroutine per destination; each runs the loop body (bump byte
  0 when cycling, write the frame, wait) until the context is done. The run is given by
  its schedule: the destinations in the order in which their writes happen. The firewall
  phase calls it with a single destination and \<open>cycle\<close> set, so its schedule repeats
  that destination; the mapping phase calls it with all destinations and \<open>cycle\<close>
  unset, and there the shared array \<open>req\<close> is never written. Write errors are dropped
  by the source.
\<close>

fun transmit_steps :: "bool \<Rightarrow> byte list \<Rightarrow> udpaddr list \<Rightarrow> (udpaddr \<times> byte list) list" where
  "transmit_steps cycle req [] = []"
| "transmit_steps cycle req (dest # sched) =
     (let req' = (if cycle then req[0 := (req ! 0 + 1) mod 4] else req)
      in (dest, req') # transmit_steps cycle req' sched)"

definition transmit :: "bool \<Rightarrow> udpaddr list \<Rightarrow> (udpaddr \<times> byte list) list" where
  "transmit cycle sched = transmit_steps cycle (replicate 180 0) sched"

definition firewall_frames :: "udpaddr \<Rightarrow> nat \<Rightarrow> byte list list" where
  "firewall_frames dest n = map snd (transmit True (replicate n dest))"

definition mapping_frames :: "udpaddr list \<Rightarrow> byte list list" where
  "mapping_frames sched = map snd (transmit False sched)"

text \<open>
  The server writes the reflection over the first 18 bytes of the buffer that holds the
  request: \<open>copy\<close> moves as many bytes as the shorter of its two slices has, and the
  port is narrowed to \<open>uint16\<close> and stored big-endian.
\<close>

definition copy_bytes :: "byte list \<Rightarrow> byte list \<Rightarrow> byte list" where
  "copy_bytes dst src = take (length dst) src @ drop (length src) dst"

definition PutUint16 :: "byte list \<Rightarrow> 16 word \<Rightarrow> byte list" where
  "PutUint16 b v = b[0 := ucast (drop_bit 8 v), 1 := ucast v]"

definition Uint16 :: "byte list \<Rightarrow> 16 word" where
  "Uint16 b = (ucast (b ! 1) OR push_bit 8 (ucast (b ! 0)))"

definition reflection :: "byte list \<Rightarrow> udpaddr \<Rightarrow> byte list" where
  "reflection buf addr =
     (let buf1 = copy_bytes (take 16 buf) (To16 (IP addr)) @ drop 16 buf;
          buf2 = take 16 buf1 @
                 PutUint16 (take 2 (drop 16 buf1)) (word_of_int (Port addr)) @
                 drop 18 buf1
      in take 18 buf2)"

text \<open>The client's reading of an 18-byte frame, before \<open>copyUDPAddr\<close>.\<close>

definition decode_mapped :: "byte list \<Rightarrow> udpaddr" where
  "decode_mapped buf = \<lparr>IP = take 16 buf, Port = uint (Uint16 (take 2 (drop 16 buf))), Zone = []\<rparr>"

section \<open>The mapping prober\<close>

text \<open>
  One socket's run is given by what the operating system hands to it: whether the socket
  could be opened and its deadline set, its local address, the datagrams read in order,
  and the error that ends the reading (the deadline's timeout, or another error). A
  datagram longer than the 1500-byte buffer is cut to it. The offer of a working
  destination to the firewall phase does not touch the probe list and is left out.
\<close>

datatype error = ErrListen | ErrSetDeadline | ErrRead

datatype read_end = ReadTimeout | ReadFailure

record packet =
  src :: udpaddr
  payload :: "byte list"

record socket_run =
  listen_ok :: bool
  local_addr :: udpaddr
  deadline_ok :: bool
  packets :: "packet list"
  last_read :: read_end

fun receive_loop ::
  "udpaddr \<Rightarrow> string set \<Rightarrow> string set \<Rightarrow> mapping_probe list \<Rightarrow> packet list
     \<Rightarrow> mapping_probe list \<times> string set" where
  "receive_loop loc seen seenByDest ret [] = (ret, seenByDest)"
| "receive_loop loc seen seenByDest ret (pkt # rest) =
     (if min (length (payload pkt)) 1500 \<noteq> 18 then receive_loop loc seen seenByDest ret rest
      else
        (let mapped = decode_mapped (payload pkt);
             probe = \<lparr>Local = copyUDPAddr loc, Mapped = Some (copyUDPAddr mapped),
                      Remote = copyUDPAddr (src pkt), Timeout = False\<rparr>
         in if key probe \<notin> seen
              then receive_loop loc (insert (key probe) seen)
                     (insert (UDPAddr_String (Some (src pkt))) seenByDest) (ret @ [probe]) rest
            else receive_loop loc seen seenByDest ret rest))"

text \<open>
  The deferred closure: it appends a timeout record for every destination that was not
  seen to the local variable \<open>ret\<close>.
\<close>

fun deferred_timeouts ::
  "udpaddr \<Rightarrow> string set \<Rightarrow> mapping_probe list \<Rightarrow> udpaddr list \<Rightarrow> mapping_probe list" where
  "deferred_timeouts loc seenByDest ret [] = ret"
| "deferred_timeouts loc seenByDest ret (dest # rest) =
     (if UDPAddr_String (Some dest) \<notin> seenByDest
        then deferred_timeouts loc seenByDest
               (ret @ [\<lparr>Local = copyUDPAddr loc, Mapped = None,
                        Remote = copyUDPAddr dest, Timeout = True\<rparr>]) rest
      else deferred_timeouts loc seenByDest ret rest)"

text \<open>
  \<open>probeOneMapping\<close> has unnamed results. Its \<open>return ret, nil\<close> copies the slice
  \<open>ret\<close> into the result before the deferred closure runs, and the closure's
  assignment to the variable \<open>ret\<close> does not reach the result: the function hands back
  the list as it stood when the read timed out. \<open>ret_after_defer\<close> is the value the
  variable holds once the closure has run.
\<close>

definition probeOneMapping :: "udpaddr list \<Rightarrow> socket_run \<Rightarrow> error + mapping_probe list" where
  "probeOneMapping dests run =
     (if \<not> listen_ok run then Inl ErrListen
      else if \<not> deadline_ok run then Inl ErrSetDeadline
      else (case receive_loop (local_addr run) {} {} [] (packets run) of
              (ret, seenByDest) \<Rightarrow>
                (case last_read run of
                   ReadTimeout \<Rightarrow> Inr ret
                 | ReadFailure \<Rightarrow> Inl ErrRead)))"

definition ret_after_defer :: "udpaddr list \<Rightarrow> socket_run \<Rightarrow> mapping_probe list" where
  "ret_after_defer dests run =
     (case receive_loop (local_addr run) {} {} [] (packets run) of
        (ret, seenByDest) \<Rightarrow> deferred_timeouts (local_addr run) seenByDest ret dests)"

text \<open>
  \<open>probeMapping\<close> starts the sockets and collects their results from the channel in
  the order in which they finish; the first error ends the collection.
\<close>

fun probeMapping_collect ::
  "mapping_probe list \<Rightarrow> (error + mapping_probe list) list \<Rightarrow> error + mapping_probe list" where
  "probeMapping_collect ret [] = Inr ret"
| "probeMapping_collect ret (res # rest) =
     (case res of
        Inl e \<Rightarrow> Inl e
      | Inr probes \<Rightarrow> probeMapping_collect (ret @ probes) rest)"

definition probeMapping :: "udpaddr list \<Rightarrow> socket_run list \<Rightarrow> error + mapping_probe list" where
  "probeMapping dests runs = probeMapping_collect [] (map (probeOneMapping dests) runs)"

section \<open>The scan behind the varies-by-destination predicates, in the words of the specification\<close>

text \<open>
  The scan runs over the probes that carry a reply: the local endpoint, the mapped
  endpoint and the remote endpoint of every probe that is not a timeout. Its anchor is
  the tuple (local endpoint, remote address or remote port, mapped address, mapped port),
  absent until the first probe is seen. Two local endpoints differ when their string
  forms do; addresses are compared as \<open>IP.Equal\<close> does and ports as integers.
\<close>

fun replies :: "mapping_probe list \<Rightarrow> (udpaddr \<times> udpaddr \<times> udpaddr) list" where
  "replies [] = []"
| "replies (p # ps) =
     (if Timeout p then replies ps
      else case Mapped p of None \<Rightarrow> replies ps | Some m \<Rightarrow> (Local p, m, Remote p) # replies ps)"

definition endpoint_differs :: "udpaddr \<Rightarrow> udpaddr \<Rightarrow> bool" where
  "endpoint_differs x y = (UDPAddr_String (Some x) \<noteq> UDPAddr_String (Some y))"

definition mapped_differs :: "udpaddr \<Rightarrow> ip \<Rightarrow> int \<Rightarrow> bool" where
  "mapped_differs m aip aport = (\<not> IP_Equal (IP m) aip \<or> Port m \<noteq> aport)"

fun scan_with_anchor ::
  "(udpaddr \<Rightarrow> 'x) \<Rightarrow> ('x \<Rightarrow> 'x \<Rightarrow> bool) \<Rightarrow> (udpaddr \<times> 'x \<times> ip \<times> int) option
     \<Rightarrow> (udpaddr \<times> udpaddr \<times> udpaddr) list \<Rightarrow> bool" where
  "scan_with_anchor axis same anchor [] = False"
| "scan_with_anchor axis same None ((l, m, r) # rest) =
     scan_with_anchor axis same (Some (l, axis r, IP m, Port m)) rest"
| "scan_with_anchor axis same (Some (al, ax, aip, aport)) ((l, m, r) # rest) =
     (if endpoint_differs l al then
        scan_with_anchor axis same (Some (l, axis r, IP m, Port m)) rest
      else if same (axis r) ax then
        scan_with_anchor axis same (Some (al, ax, aip, aport)) rest
      else if mapped_differs m aip aport then True
      else scan_with_anchor axis same (Some (al, ax, aip, aport)) rest)"

definition varies_by_dest_ip_spec :: "result \<Rightarrow> bool" where
  "varies_by_dest_ip_spec r = scan_with_anchor IP IP_Equal None (replies (MappingProbes r))"

definition varies_by_dest_port_spec :: "result \<Rightarrow> bool" where
  "varies_by_dest_port_spec r = scan_with_anchor Port (=) None (replies (MappingProbes r))"


text \<open>
  The replies in which the mapped port is the local port, for the port-preservation
  ratio.
\<close>

definition port_preserved :: "udpaddr \<times> udpaddr \<times> udpaddr \<Rightarrow> bool" where
  "port_preserved x = (case x of (l, m, r) \<Rightarrow> Port l = Port m)"

section \<open>Anonymization in closed form\<close>

text \<open>
  The addresses of a result in the order in which \<open>Anonymize\<close> visits them: the local
  addresses, then local, mapped and remote of every mapping probe, then local, remote
  and the received endpoints of the firewall probe.
\<close>

definition probe_ips :: "mapping_probe \<Rightarrow> ip list" where
  "probe_ips p =
     IP (Local p) # (case Mapped p of None \<Rightarrow> [] | Some m \<Rightarrow> [IP m]) @ [IP (Remote p)]"

definition firewall_ips :: "firewall_probe \<Rightarrow> ip list" where
  "firewall_ips fp = IP (Local_fw fp) # IP (Remote_fw fp) # map IP (Received fp)"

definition result_ips :: "result \<Rightarrow> ip list" where
  "result_ips r =
     LocalIPs r @ concat (map probe_ips (MappingProbes r)) @
     (case FirewallProbes r of None \<Rightarrow> [] | Some fp \<Rightarrow> firewall_ips fp)"

text \<open>
  An address passes through when it is empty or unspecified. The strings of the other
  addresses, each once and in the order of first occurrence, are the keys; the address
  generated for the key with index \<open>k\<close> (from 0) is \<open>a.a.b.b\<close> with
  \<open>b = (k + 1) mod 256\<close> and \<open>a = (1 + (k + 1) div 256) mod 256\<close>.
\<close>

definition passes :: "ip \<Rightarrow> bool" where
  "passes x = (length x = 0 \<or> IsUnspecified x)"

definition keys_step :: "string list \<Rightarrow> ip \<Rightarrow> string list" where
  "keys_step ks x = (if passes x \<or> IP_String x \<in> set ks then ks else ks @ [IP_String x])"

fun fresh_keys :: "string list \<Rightarrow> ip list \<Rightarrow> string list" where
  "fresh_keys ks [] = ks"
| "fresh_keys ks (x # xs) = fresh_keys (keys_step ks x) xs"

fun index_of :: "'a \<Rightarrow> 'a list \<Rightarrow> nat" where
  "index_of k [] = 0"
| "index_of k (x # xs) = (if x = k then 0 else Suc (index_of k xs))"

definition generated :: "nat \<Rightarrow> ip" where
  "generated k =
     IPv4 (of_nat (1 + (k + 1) div 256)) (of_nat (1 + (k + 1) div 256))
          (of_nat (k + 1)) (of_nat (k + 1))"

definition replacement :: "string list \<Rightarrow> ip \<Rightarrow> ip" where
  "replacement ks x = (if passes x then x else generated (index_of (IP_String x) ks))"

text \<open>A function applied to every address of a result, and nothing else changed.\<close>

definition map_addr :: "(ip \<Rightarrow> ip) \<Rightarrow> udpaddr \<Rightarrow> udpaddr" where
  "map_addr f u = u\<lparr>IP := f (IP u)\<rparr>"

definition map_probe :: "(ip \<Rightarrow> ip) \<Rightarrow> mapping_probe \<Rightarrow> mapping_probe" where
  "map_probe f p =
     p\<lparr>Local := map_addr f (Local p), Mapped := map_option (map_addr f) (Mapped p),
       Remote := map_addr f (Remote p)\<rparr>"

definition map_firewall :: "(ip \<Rightarrow> ip) \<Rightarrow> firewall_probe \<Rightarrow> firewall_probe" where
  "map_firewall f fp =
     \<lparr>Local_fw = map_addr f (Local_fw fp), Remote_fw = map_addr f (Remote_fw fp),
      Received = map (map_addr f) (Received fp)\<rparr>"

definition map_result_ips :: "(ip \<Rightarrow> ip) \<Rightarrow> result \<Rightarrow> result" where
  "map_result_ips f r =
     \<lparr>LocalIPs = map f (LocalIPs r), MappingProbes = map (map_probe f) (MappingProbes r),
      FirewallProbes = map_option (map_firewall f) (FirewallProbes r)\<rparr>"

text \<open>
  The state of the closure after the keys \<open>ks\<close> have been assigned: the map sends
  each key to the address generated for its index, and the counters stand at the values
  for the next index.
\<close>

definition key_map :: "string list \<Rightarrow> string \<rightharpoonup> ip" where
  "key_map ks s = (if s \<in> set ks then Some (generated (index_of s ks)) else None)"

definition anon_inv :: "string list \<Rightarrow> anon_state \<Rightarrow> bool" where
  "anon_inv ks st \<longleftrightarrow>
     ips_of st = key_map ks \<and>
     b_of st = of_nat (length ks + 1) \<and>
     a_of st = of_nat (1 + (length ks + 1) div 256)"

definition anonymized_local_ips :: "result \<Rightarrow> ip list" where
  "anonymized_local_ips r = (case Anonymize r of Inl e \<Rightarrow> [] | Inr r' \<Rightarrow> LocalIPs r')"

section \<open>Example inputs\<close>

definition example_dest :: udpaddr where
  "example_dest = \<lparr>IP = [8, 8, 8, 8], Port = 443, Zone = []\<rparr>"

definition example_local :: udpaddr where
  "example_local = \<lparr>IP = [192, 168, 1, 2], Port = 50000, Zone = []\<rparr>"

text \<open>A socket on which nothing arrives before the deadline.\<close>

definition silent_run :: socket_run where
  "silent_run = \<lparr>listen_ok = True, local_addr = example_local, deadline_ok = True,
     packets = [], last_read = ReadTimeout\<rparr>"

text \<open>
  A firewall probe towards 8.8.8.8:443 that heard from 8.8.8.8:443 and from 8.8.8.8:1000,
  the second in the 16-byte form in which the socket layer reports it.
\<close>

definition two_sources_result :: result where
  "two_sources_result = \<lparr>LocalIPs = [], MappingProbes = [],
     FirewallProbes = Some \<lparr>Local_fw = example_local,
       Remote_fw = example_dest,
       Received = [\<lparr>IP = [8, 8, 8, 8], Port = 443, Zone = []\<rparr>,
                   \<lparr>IP = IPv4 8 8 8 8, Port = 1000, Zone = []\<rparr>]\<rparr>\<rparr>"

text \<open>One socket, three destination ports; port 5060 never answers.\<close>

definition blocked_port_result :: result where
  "blocked_port_result = \<lparr>LocalIPs = [[192, 168, 1, 2]],
     MappingProbes =
       [\<lparr>Local = example_local, Mapped = Some \<lparr>IP = IPv4 203 0 113 7, Port = 50000, Zone = []\<rparr>,
          Remote = example_dest, Timeout = False\<rparr>,
        \<lparr>Local = example_local, Mapped = Some \<lparr>IP = IPv4 203 0 113 7, Port = 50000, Zone = []\<rparr>,
          Remote = \<lparr>IP = [8, 8, 8, 8], Port = 80, Zone = []\<rparr>, Timeout = False\<rparr>,
        \<lparr>Local = example_local, Mapped = None,
          Remote = \<lparr>IP = [8, 8, 8, 8], Port = 5060, Zone = []\<rparr>, Timeout = True\<rparr>,
        \<lparr>Local = example_local, Mapped = None,
          Remote = \<lparr>IP = [8, 8, 4, 4], Port = 5060, Zone = []\<rparr>, Timeout = True\<rparr>],
     FirewallProbes = None\<rparr>"

text \<open>A result in which the only probe timed out.\<close>

definition all_timeout_result :: result where
  "all_timeout_result = \<lparr>LocalIPs = [[192, 168, 1, 2]],
     MappingProbes = [\<lparr>Local = example_local, Mapped = None, Remote = example_dest, Timeout = True\<rparr>],
     FirewallProbes = None\<rparr>"

text \<open>A client as the server sees it, behind the public address 203.0.113.7.\<close>

definition mapped_client :: udpaddr where
  "mapped_client = \<lparr>IP = IPv4 203 0 113 7, Port = 50000, Zone = []\<rparr>"

text \<open>
  One socket, two servers on port 443, and a different public address towards each of
  them.
\<close>

definition varies_by_ip_result :: result where
  "varies_by_ip_result = \<lparr>LocalIPs = [[192, 168, 1, 2]],
     MappingProbes =
       [\<lparr>Local = example_local, Mapped = Some \<lparr>IP = IPv4 203 0 113 7, Port = 6000, Zone = []\<rparr>,
          Remote = example_dest, Timeout = False\<rparr>,
        \<lparr>Local = example_local, Mapped = Some \<lparr>IP = IPv4 203 0 113 8, Port = 6000, Zone = []\<rparr>,
          Remote = \<lparr>IP = [8, 8, 4, 4], Port = 443, Zone = []\<rparr>, Timeout = False\<rparr>],
     FirewallProbes = None\<rparr>"

text \<open>Five replies on one socket; four of them kept the local port 50000.\<close>

definition preserved_probe :: mapping_probe where
  "preserved_probe = \<lparr>Local = example_local,
     Mapped = Some \<lparr>IP = IPv4 203 0 113 7, Port = 50000, Zone = []\<rparr>,
     Remote = example_dest, Timeout = False\<rparr>"

definition moved_probe :: mapping_probe where
  "moved_probe = \<lparr>Local = example_local,
     Mapped = Some \<lparr>IP = IPv4 203 0 113 7, Port = 1024, Zone = []\<rparr>,
     Remote = \<lparr>IP = [8, 8, 4, 4], Port = 80, Zone = []\<rparr>, Timeout = False\<rparr>"

definition four_of_five_result :: result where
  "four_of_five_result = \<lparr>LocalIPs = [[192, 168, 1, 2]],
     MappingProbes = [preserved_probe, preserved_probe, moved_probe, preserved_probe, preserved_probe],
     FirewallProbes = None\<rparr>"

text \<open>
  A host with \<open>n\<close> local addresses 10.x.y.z, all different for \<open>n\<close> up to
  \<open>2 ^ 24\<close>, and no probe data.
\<close>

definition ip_of_index :: "nat \<Rightarrow> ip" where
  "ip_of_index i = [10, of_nat (i div 65536), of_nat (i div 256), of_nat i]"

definition many_locals_result :: "nat \<Rightarrow> result" where
  "many_locals_result n =
     \<lparr>LocalIPs = map ip_of_index [0..<n], MappingProbes = [], FirewallProbes = None\<rparr>"

text \<open>A complete result behind a NAT: two replies and a firewall probe.\<close>

definition nat_result :: result where
  "nat_result = \<lparr>LocalIPs = [[192, 168, 1, 2], IPv4zero],
     MappingProbes = [preserved_probe, moved_probe],
     FirewallProbes = Some \<lparr>Local_fw = \<lparr>IP = [0, 0, 0, 0], Port = 40000, Zone = []\<rparr>,
       Remote_fw = example_dest,
       Received = [\<lparr>IP = IPv4 8 8 8 8, Port = 443, Zone = []\<rparr>]\<rparr>\<rparr>"

section \<open>The varies-by-destination predicates\<close>

lemma JoinHostPort_nonempty: "JoinHostPort h p \<noteq> []"
  by (simp add: JoinHostPort_def)

lemma UDPAddr_String_nonempty: "UDPAddr_String (Some u) \<noteq> []"
  by (simp add: UDPAddr_String_def JoinHostPort_nonempty)

lemma mappingVariesByDestIP_loop_anchored:
  "\<forall>p\<in>set ps. \<not> Timeout p \<longrightarrow> Mapped p \<noteq> None \<Longrightarrow>
   mappingVariesByDestIP_loop (UDPAddr_String (Some al)) ax aip aport ps =
     Inr (scan_with_anchor IP IP_Equal (Some (al, ax, aip, aport)) (replies ps))"
proof (induction ps arbitrary: al ax aip aport)
  case Nil
  then show ?case by simp
next
  case (Cons p ps)
  then have ih: "\<And>al ax aip aport. mappingVariesByDestIP_loop (UDPAddr_String (Some al)) ax aip aport ps =
     Inr (scan_with_anchor IP IP_Equal (Some (al, ax, aip, aport)) (replies ps))"
    by simp
  show ?case
  proof (cases "Timeout p")
    case True
    then show ?thesis by (simp add: ih)
  next
    case False
    with Cons.prems obtain m where m: "Mapped p = Some m" by auto
    show ?thesis
      using False m by (simp add: ih endpoint_differs_def mapped_differs_def)
  qed
qed

lemma mappingVariesByDestIP_loop_initial:
  "\<forall>p\<in>set ps. \<not> Timeout p \<longrightarrow> Mapped p \<noteq> None \<Longrightarrow>
   mappingVariesByDestIP_loop [] ax aip aport ps =
     Inr (scan_with_anchor IP IP_Equal None (replies ps))"
proof (induction ps)
  case Nil
  then show ?case by simp
next
  case (Cons p ps)
  show ?case
  proof (cases "Timeout p")
    case True
    then show ?thesis using Cons by simp
  next
    case False
    with Cons.prems obtain m where m: "Mapped p = Some m" by auto
    have "\<forall>p\<in>set ps. \<not> Timeout p \<longrightarrow> Mapped p \<noteq> None" using Cons.prems by simp
    then show ?thesis
      using False m 
      by (simp add: UDPAddr_String_nonempty mappingVariesByDestIP_loop_anchored)
  qed
qed

lemma mappingVariesByDestPort_loop_anchored:
  "\<forall>p\<in>set ps. \<not> Timeout p \<longrightarrow> Mapped p \<noteq> None \<Longrightarrow>
   mappingVariesByDestPort_loop (UDPAddr_String (Some al)) ax aip aport ps =
     Inr (scan_with_anchor Port (=) (Some (al, ax, aip, aport)) (replies ps))"
proof (induction ps arbitrary: al ax aip aport)
  case Nil
  then show ?case by simp
next
  case (Cons p ps)
  then have ih: "\<And>al ax aip aport. mappingVariesByDestPort_loop (UDPAddr_String (Some al)) ax aip aport ps =
     Inr (scan_with_anchor Port (=) (Some (al, ax, aip, aport)) (replies ps))"
    by simp
  show ?case
  proof (cases "Timeout p")
    case True
    then show ?thesis by (simp add: ih)
  next
    case False
    with Cons.prems obtain m where m: "Mapped p = Some m" by auto
    show ?thesis
      using False m by (simp add: ih endpoint_differs_def mapped_differs_def)
  qed
qed

lemma mappingVariesByDestPort_loop_initial:
  "\<forall>p\<in>set ps. \<not> Timeout p \<longrightarrow> Mapped p \<noteq> None \<Longrightarrow>
   mappingVariesByDestPort_loop [] ax aip aport ps =
     Inr (scan_with_anchor Port (=) None (replies ps))"
proof (induction ps)
  case Nil
  then show ?case by simp
next
  case (Cons p ps)
  show ?case
  proof (cases "Timeout p")
    case True
    then show ?thesis using Cons by simp
  next
    case False
    with Cons.prems obtain m where m: "Mapped p = Some m" by auto
    have "\<forall>p\<in>set ps. \<not> Timeout p \<longrightarrow> Mapped p \<noteq> None" using Cons.prems by simp
    then show ?thesis
      using False m 
      by (simp add: UDPAddr_String_nonempty mappingVariesByDestPort_loop_anchored)
  qed
qed

text \<open>
  Claim C2. On a result whose non-timeout probes all carry a mapped endpoint, each of the
  two predicates returns the outcome of the scan with an anchor over the non-timeout
  probes in list order: a probe whose local endpoint differs from the anchor's becomes
  the anchor; a probe on the anchor's axis value (remote address, respectively remote
  port) is skipped; any other probe ends the scan with true when its mapped address or
  port differs from the anchor's; the scan that reaches the end gives false.
\<close>

theorem mapping_varies_scan:
  assumes "\<forall>p\<in>set (MappingProbes r). \<not> Timeout p \<longrightarrow> Mapped p \<noteq> None"
  shows "mappingVariesByDestIP r = Inr (varies_by_dest_ip_spec r) \<and>
         mappingVariesByDestPort r = Inr (varies_by_dest_port_spec r)"
  using assms
  by (simp add: mappingVariesByDestIP_def mappingVariesByDestPort_def
      varies_by_dest_ip_spec_def varies_by_dest_port_spec_def
      mappingVariesByDestIP_loop_initial mappingVariesByDestPort_loop_initial)

theorem mapping_varies_scan_witness:
  "mappingVariesByDestIP varies_by_ip_result = Inr True \<and>
   mappingVariesByDestPort varies_by_ip_result = Inr False"
proof -
  have h: "\<forall>p\<in>set (MappingProbes varies_by_ip_result). \<not> Timeout p \<longrightarrow> Mapped p \<noteq> None"
    by (simp add: varies_by_ip_result_def)
  have a: "varies_by_dest_ip_spec varies_by_ip_result"
    by (simp add: varies_by_dest_ip_spec_def varies_by_ip_result_def endpoint_differs_def
        mapped_differs_def example_dest_def IP_Equal_def IPv4_def)
  have b: "\<not> varies_by_dest_port_spec varies_by_ip_result"
    by (simp add: varies_by_dest_port_spec_def varies_by_ip_result_def endpoint_differs_def
        mapped_differs_def example_dest_def)
  show ?thesis
    using mapping_varies_scan [OF h] a b by simp
qed

section \<open>The analyzer's firewall predicates\<close>

lemma firewallEnforcesDestIP_loop_iff:
  "firewallEnforcesDestIP_loop outIP rs \<longleftrightarrow> (\<forall>recv\<in>set rs. IP_Equal (IP recv) outIP)"
  by (induction rs) auto

lemma firewallEnforcesDestPort_loop_iff:
  "firewallEnforcesDestPort_loop outPort rs \<longleftrightarrow> (\<forall>recv\<in>set rs. Port recv = outPort)"
  by (induction rs) auto

text \<open>
  Claim C3. Without a firewall probe both predicates are false. With one,
  \<open>firewallEnforcesDestIP\<close> holds exactly when every received endpoint has the address
  of the probed remote (in the sense of \<open>IP.Equal\<close>), \<open>firewallEnforcesDestPort\<close>
  exactly when every received endpoint has the remote's port, and both hold when nothing
  was received.
\<close>

theorem firewall_enforces_dest:
  "(FirewallProbes r = None \<longrightarrow> \<not> firewallEnforcesDestIP r \<and> \<not> firewallEnforcesDestPort r) \<and>
   (\<forall>fp. FirewallProbes r = Some fp \<longrightarrow>
      (firewallEnforcesDestIP r \<longleftrightarrow>
         (\<forall>recv\<in>set (Received fp). IP_Equal (IP recv) (IP (Remote_fw fp)))) \<and>
      (firewallEnforcesDestPort r \<longleftrightarrow>
         (\<forall>recv\<in>set (Received fp). Port recv = Port (Remote_fw fp))) \<and>
      (Received fp = [] \<longrightarrow> firewallEnforcesDestIP r \<and> firewallEnforcesDestPort r))"
  by (auto simp: firewallEnforcesDestIP_def firewallEnforcesDestPort_def
      firewallEnforcesDestIP_loop_iff firewallEnforcesDestPort_loop_iff)

theorem firewall_enforces_dest_witness:
  "firewallEnforcesDestIP two_sources_result \<and> \<not> firewallEnforcesDestPort two_sources_result"
  using firewall_enforces_dest [of two_sources_result]
  by (simp add: two_sources_result_def example_dest_def IP_Equal_def IPv4_def v4InV6Prefix_def)

section \<open>Filtered egress ports\<close>

lemma working_loop_set:
  "working_loop w ps = w \<union> {Port (Remote p) |p. p \<in> set ps \<and> \<not> Timeout p}"
  by (induction ps arbitrary: w) auto

lemma filteredEgress_loop_set:
  "set (filteredEgress_loop w ret ps) =
     set ret \<union> {Port (Remote p) |p. p \<in> set ps \<and> Timeout p \<and> Port (Remote p) \<notin> w}"
  by (induction ps arbitrary: w ret) auto

lemma filteredEgress_loop_distinct:
  "distinct ret \<Longrightarrow> set ret \<subseteq> w \<Longrightarrow> distinct (filteredEgress_loop w ret ps)"
proof (induction ps arbitrary: w ret)
  case Nil
  then show ?case by simp
next
  case (Cons p ps)
  show ?case
  proof (cases "Timeout p \<and> Port (Remote p) \<notin> w")
    case True
    have "distinct (ret @ [Port (Remote p)])"
      using Cons.prems True by auto
    moreover have "set (ret @ [Port (Remote p)]) \<subseteq> insert (Port (Remote p)) w"
      using Cons.prems by auto
    ultimately show ?thesis
      using True Cons.IH by simp
  next
    case False
    then show ?thesis
      using Cons by auto
  qed
qed

text \<open>
  Claim C4. \<open>filteredEgress\<close> is sorted in increasing order, has no duplicates, and
  holds exactly the remote ports that some mapping probe targets and on which every
  mapping probe timed out.
\<close>

theorem filtered_egress_ports:
  "sorted (filteredEgress r) \<and> distinct (filteredEgress r) \<and>
   set (filteredEgress r) =
     {p. (\<exists>probe\<in>set (MappingProbes r). Port (Remote probe) = p) \<and>
         (\<forall>probe\<in>set (MappingProbes r). Port (Remote probe) = p \<longrightarrow> Timeout probe)}"
proof -
  have "distinct (filteredEgress_loop (working_loop {} (MappingProbes r)) [] (MappingProbes r))"
    by (rule filteredEgress_loop_distinct) simp_all
  moreover have "set (filteredEgress_loop (working_loop {} (MappingProbes r)) [] (MappingProbes r)) =
     {p. (\<exists>probe\<in>set (MappingProbes r). Port (Remote probe) = p) \<and>
         (\<forall>probe\<in>set (MappingProbes r). Port (Remote probe) = p \<longrightarrow> Timeout probe)}"
    unfolding filteredEgress_loop_set working_loop_set by auto
  ultimately show ?thesis
    by (simp add: filteredEgress_def)
qed

theorem filtered_egress_ports_witness:
  "5060 \<in> set (filteredEgress blocked_port_result) \<and>
   443 \<notin> set (filteredEgress blocked_port_result) \<and>
   sorted (filteredEgress blocked_port_result)"
proof -
  have a: "\<exists>probe\<in>set (MappingProbes blocked_port_result). Port (Remote probe) = 5060"
    by (simp add: blocked_port_result_def)
  have b: "\<forall>probe\<in>set (MappingProbes blocked_port_result). Port (Remote probe) = 5060 \<longrightarrow> Timeout probe"
    by (simp add: blocked_port_result_def example_dest_def)
  have c: "\<exists>probe\<in>set (MappingProbes blocked_port_result). Port (Remote probe) = 443 \<and> \<not> Timeout probe"
    by (simp add: blocked_port_result_def example_dest_def)
  from filtered_egress_ports [of blocked_port_result] a b c show ?thesis
    by blast
qed

section \<open>Port preservation\<close>

subsection \<open>Rounding to the nearest \<open>float64\<close>\<close>

lemma round_even_of_int: "round_even (of_int m) = m"
  by (simp add: round_even_def)

lemma round_even_ge_even:
  assumes "even n"
  shows "round_even y \<ge> n \<longleftrightarrow> y \<ge> of_int n - 1 / 2"
proof
  assume a: "y \<ge> of_int n - 1 / 2"
  have fl: "of_int \<lfloor>y\<rfloor> \<le> y" "y < of_int \<lfloor>y\<rfloor> + 1" by linarith+
  have "\<lfloor>y\<rfloor> \<ge> n - 1"
  proof -
    have "of_int (n - 1) \<le> y" using a by simp
    then show ?thesis by (simp add: le_floor_iff)
  qed
  then consider "\<lfloor>y\<rfloor> \<ge> n" | "\<lfloor>y\<rfloor> = n - 1" by linarith
  then show "round_even y \<ge> n"
  proof cases
    case 1
    then show ?thesis by (auto simp: round_even_def Let_def)
  next
    case 2
    then have "odd \<lfloor>y\<rfloor>" using assms by simp
    moreover have "\<not> y - of_int \<lfloor>y\<rfloor> < 1 / 2" using a 2 by simp
    ultimately show ?thesis using 2 by (auto simp: round_even_def Let_def)
  qed
next
  assume r: "round_even y \<ge> n"
  show "y \<ge> of_int n - 1 / 2"
  proof (rule ccontr)
    assume "\<not> y \<ge> of_int n - 1 / 2"
    then have lt: "y < of_int n - 1 / 2" by simp
    have fl: "of_int \<lfloor>y\<rfloor> \<le> y" "y < of_int \<lfloor>y\<rfloor> + 1" by linarith+
    have "\<lfloor>y\<rfloor> \<le> n - 1"
    proof -
      have "y < of_int n" using lt by simp
      then have "\<lfloor>y\<rfloor> < n" by (simp add: floor_less_iff)
      then show ?thesis by simp
    qed
    then consider "\<lfloor>y\<rfloor> \<le> n - 2" | "\<lfloor>y\<rfloor> = n - 1" by linarith
    then have "round_even y \<le> n - 1"
    proof cases
      case 1
      then show ?thesis by (auto simp: round_even_def Let_def)
    next
      case 2
      then have "y - of_int \<lfloor>y\<rfloor> < 1 / 2" using lt by simp
      then show ?thesis using 2 by (auto simp: round_even_def Let_def)
    qed
    with r show False by simp
  qed
qed

lemma round_even_le_int: "y \<le> of_int N \<Longrightarrow> round_even y \<le> N"
proof -
  assume a: "y \<le> of_int N"
  show ?thesis
  proof (cases "y = of_int N")
    case True
    then show ?thesis by (simp add: round_even_of_int)
  next
    case False
    with a have "y < of_int N" by simp
    then have "\<lfloor>y\<rfloor> < N" by (simp add: floor_less_iff)
    then show ?thesis by (auto simp: round_even_def Let_def)
  qed
qed

lemma round64_upper_binade:
  assumes "1 / 2 \<le> q" "q < 1"
  shows "round64 q = of_int (round_even (q * 2 ^ 53)) / 2 ^ 53"
proof -
  have q0: "0 < q" using assms by simp
  have "log 2 (1 / 2) \<le> log 2 q" using assms q0 by (simp del: log_divide)
  moreover have "log 2 (1 / 2) = -1" by (simp add: log_divide)
  ultimately have l1: "-1 \<le> log 2 q" by simp
  have l2: "log 2 q < 0" using assms q0 by simp
  have e: "\<lfloor>log 2 q\<rfloor> = -1"
    using l1 l2 by (simp add: floor_eq_iff)
  have p1: "(2::real) powr 53 = 2 ^ 53"
    by (simp add: powr_numeral)
  have "(2::real) powr (- 53) = inverse (2 powr 53)"
    by (rule powr_minus)
  then have p2: "(2::real) powr (- 53) = 1 / 2 ^ 53"
    by (simp only: p1 inverse_eq_divide)
  have "round64 q = of_int (round_even (q * 2 powr 53)) * 2 powr (- 53)"
    using q0 by (simp add: round64_def Let_def e)
  then show ?thesis
    by (simp only: p1 p2) simp
qed


lemma round64_lower_binades:
  assumes "0 < q" "q < 1 / 2"
  shows "round64 q \<le> 1 / 2"
proof -
  define e where "e = \<lfloor>log 2 q\<rfloor>"
  have "log 2 q < log 2 (1 / 2)" using assms by (simp del: log_divide)
  moreover have "log 2 (1 / 2) = -1" by (simp add: log_divide)
  ultimately have "log 2 q < -1" by simp
  then have e1: "e < -1" unfolding e_def by (simp add: floor_less_iff)
  have "log 2 q < of_int e + 1" unfolding e_def by linarith
  then have qlt: "q < 2 powr (of_int e + 1)"
    using assms by (simp add: less_powr_iff)
  have pos: "0 < (2::real) powr (52 - of_int e)" by simp
  have "q * 2 powr (52 - of_int e) < 2 powr (of_int e + 1) * 2 powr (52 - of_int e)"
    using qlt pos by (rule mult_strict_right_mono)
  also have "\<dots> = 2 powr 53"
    by (simp add: powr_add [symmetric])
  also have "\<dots> = of_int (2 ^ 53)"
    by (simp add: powr_numeral)
  finally have "round_even (q * 2 powr (52 - of_int e)) \<le> 2 ^ 53"
    by (intro round_even_le_int) simp
  then have "real_of_int (round_even (q * 2 powr (52 - of_int e))) \<le> 2 powr 53"
    by (simp add: powr_numeral)
  then have "real_of_int (round_even (q * 2 powr (52 - of_int e))) * 2 powr (of_int e - 52)
               \<le> 2 powr 53 * 2 powr (of_int e - 52)"
    by (intro mult_right_mono) simp_all
  also have "\<dots> = 2 powr (53 + (of_int e - 52))"
    by (simp only: powr_add)
  also have "\<dots> = 2 powr (of_int e + 1)"
    by (rule arg_cong [where f = "\<lambda>x. 2 powr x"]) simp
  also have "\<dots> \<le> 2 powr (- 1)"
    using e1 by (intro powr_mono) simp_all
  also have "\<dots> = 1 / 2"
    by (simp add: powr_minus inverse_eq_divide)
  finally have "real_of_int (round_even (q * 2 powr (52 - of_int e))) * 2 powr (of_int e - 52) \<le> 1 / 2" .
  then show ?thesis
    using assms by (simp add: round64_def Let_def e_def)
qed

lemma round64_of_int:
  assumes "0 \<le> n" "n < 2 ^ 53"
  shows "round64 (of_int n) = of_int n"
proof (cases "n = 0")
  case True
  then show ?thesis by (simp add: round64_def)
next
  case False
  with assms have n1: "1 \<le> n" by simp
  define e where "e = \<lfloor>log 2 (of_int n)\<rfloor>"
  have "0 \<le> log 2 (of_int n)" using n1 by simp
  then have e0: "0 \<le> e" unfolding e_def by simp
  have "real_of_int n < 2 ^ 53" using assms(2) by (metis of_int_less_iff of_int_numeral of_int_power)
  then have "real_of_int n < 2 powr 53" by (simp add: powr_numeral)
  moreover have "(real_of_int n < 2 powr 53) = (log 2 (real_of_int n) < 53)"
    by (rule less_powr_iff) (use n1 in simp_all)
  ultimately have "log 2 (of_int n) < 53" by (simp only:)
  then have e52: "e \<le> 52" unfolding e_def by (simp add: floor_less_iff)
  define k where "k = nat (52 - e)"
  have ke: "52 - real_of_int e = real k" "real_of_int e - 52 = - real k"
    using e52 by (simp_all add: k_def)
  have p1: "(2::real) powr (52 - of_int e) = of_int (2 ^ k)"
    by (simp add: ke powr_realpow)
  have p2: "(2::real) powr (of_int e - 52) = inverse (of_int (2 ^ k))"
    by (simp add: ke powr_minus powr_realpow)
  have "round_even (of_int n * 2 powr (52 - of_int e)) = n * 2 ^ k"
    using round_even_of_int [of "n * 2 ^ k"] by (simp add: p1)
  then have "real_of_int (round_even (of_int n * 2 powr (52 - of_int e))) * 2 powr (of_int e - 52)
           = of_int n"
    by (simp add: p2)
  then show ?thesis
    using n1 by (simp add: round64_def Let_def e_def)
qed


lemma round64_0_8: "round64 (8 / 10) = 7205759403792794 / 2 ^ 53"
proof -
  have "round64 (8 / 10) = of_int (round_even (8 / 10 * 2 ^ 53)) / 2 ^ 53"
    by (rule round64_upper_binade) simp_all
  moreover have "round_even (8 / 10 * 2 ^ 53) = 7205759403792794"
    by (simp add: round_even_def Let_def)
  ultimately show ?thesis by simp
qed

lemma ratio_threshold:
  fixes p t :: int
  assumes "0 < t" "t < 2 ^ 54"
  shows "18014398509481984 * p \<ge> 14411518807585587 * t \<longleftrightarrow> 4 * t \<le> 5 * p"
  using assms by auto

lemma float64_ratio_ge_0_8:
  fixes p t :: int
  assumes p0: "0 \<le> p" and pt: "p \<le> t" and t0: "0 < t" and t53: "t < 2 ^ 53"
  shows "float64_ge (float64_div (float64_of_int p) (float64_of_int t)) (float64_const (8 / 10))
           \<longleftrightarrow> 4 * t \<le> 5 * p"
proof -
  define q where "q = real_of_int p / real_of_int t"
  have tr: "0 < real_of_int t" using t0 by simp
  have fp: "float64_of_int p = Finite (of_int p)"
    using round64_of_int [of p] p0 pt t53 by (simp add: float64_of_int_def)
  have ft: "float64_of_int t = Finite (of_int t)"
    using round64_of_int [of t] t0 t53 by (simp add: float64_of_int_def)
  have lhs: "float64_ge (float64_div (float64_of_int p) (float64_of_int t)) (float64_const (8 / 10))
           \<longleftrightarrow> round64 q \<ge> 7205759403792794 / 2 ^ 53"
    unfolding fp ft float64_const_def round64_0_8 using t0 by (simp add: q_def)
  have q01: "0 \<le> q" "q \<le> 1"
    using p0 pt tr by (simp_all add: q_def)
  consider "p = 0" | "p = t" | "1 / 2 \<le> q" "q < 1" | "0 < q" "q < 1 / 2"
  proof -
    have "q = 0 \<longleftrightarrow> p = 0" using tr by (simp add: q_def)
    moreover have "q = 1 \<longleftrightarrow> p = t" using tr by (auto simp: q_def)
    ultimately show ?thesis using q01 that by fastforce
  qed
  then have "round64 q \<ge> 7205759403792794 / 2 ^ 53 \<longleftrightarrow> 4 * t \<le> 5 * p"
  proof cases
    case 1
    then have "q = 0" by (simp add: q_def)
    then show ?thesis using 1 t0 by (simp add: round64_def)
  next
    case 2
    then have "q = of_int 1" using tr by (simp add: q_def)
    then have "round64 q = 1" using round64_of_int [of 1] by simp
    then show ?thesis using 2 t0 by simp
  next
    case 3
    have ev: "even (7205759403792794 :: int)" by simp
    have "round64 q \<ge> 7205759403792794 / 2 ^ 53
            \<longleftrightarrow> real_of_int (round_even (q * 2 ^ 53)) \<ge> of_int 7205759403792794"
      by (simp add: round64_upper_binade [OF 3] field_simps)
    also have "\<dots> \<longleftrightarrow> round_even (q * 2 ^ 53) \<ge> 7205759403792794"
      by (simp only: of_int_le_iff)
    also have "\<dots> \<longleftrightarrow> q * 2 ^ 53 \<ge> of_int 7205759403792794 - 1 / 2"
      by (rule round_even_ge_even [OF ev])
    also have "\<dots> \<longleftrightarrow> real_of_int (18014398509481984 * p) \<ge> real_of_int (14411518807585587 * t)"
      using tr by (simp add: q_def field_simps)
    also have "\<dots> \<longleftrightarrow> 18014398509481984 * p \<ge> 14411518807585587 * t"
      by (simp only: of_int_le_iff)
    also have "\<dots> \<longleftrightarrow> 4 * t \<le> 5 * p"
      using t0 t53 by (intro ratio_threshold) simp_all
    finally show ?thesis .
  next
    case 4
    have "round64 q \<le> 1 / 2" by (rule round64_lower_binades [OF 4])
    then have a: "\<not> round64 q \<ge> 7205759403792794 / 2 ^ 53" by simp
    have "real_of_int p * 2 < real_of_int t" using 4 tr by (simp add: q_def field_simps)
    then have "p * 2 < t" by (metis of_int_less_iff of_int_mult of_int_numeral)
    then have "\<not> 4 * t \<le> 5 * p" using p0 by simp
    with a show ?thesis by simp
  qed
  with lhs show ?thesis by simp
qed

subsection \<open>The ratio\<close>

lemma length_replies_le: "length (replies ps) \<le> length ps"
  by (induction ps) (auto split: option.splits)

lemma mappingPreservesSourcePort_loop_counts:
  "\<forall>p\<in>set ps. \<not> Timeout p \<longrightarrow> Mapped p \<noteq> None \<Longrightarrow>
   mappingPreservesSourcePort_loop t n ps =
     Inr (t + int (length (replies ps)), n + int (length (filter port_preserved (replies ps))))"
proof (induction ps arbitrary: t n)
  case Nil
  then show ?case by simp
next
  case (Cons p ps)
  then have ih: "\<And>t n. mappingPreservesSourcePort_loop t n ps =
     Inr (t + int (length (replies ps)), n + int (length (filter port_preserved (replies ps))))"
    by simp
  show ?case
  proof (cases "Timeout p")
    case True
    then show ?thesis by (simp add: ih)
  next
    case False
    with Cons.prems obtain m where m: "Mapped p = Some m" by auto
    have pp: "port_preserved (Local p, m, Remote p) = (Port (Local p) = Port m)"
      by (simp add: port_preserved_def)
    show ?thesis
      using False m by (simp add: ih pp)
  qed
qed

text \<open>
  Claim C5. On a result whose non-timeout probes all carry a mapped endpoint and whose
  probe list is shorter than \<open>2 ^ 53\<close> (below that length the conversions to
  \<open>float64\<close> are exact; a Go slice cannot be longer), \<open>mappingPreservesSourcePort\<close>
  is true exactly when there is a non-timeout probe and the fraction of the non-timeout
  probes whose mapped port is the local port is at least 0.8; without any non-timeout
  probe the quotient is a NaN and the result is false.
\<close>

theorem preserves_source_port_ratio:
  assumes wf: "\<forall>p\<in>set (MappingProbes r). \<not> Timeout p \<longrightarrow> Mapped p \<noteq> None"
    and small: "length (MappingProbes r) < 2 ^ 53"
  shows "mappingPreservesSourcePort r =
           Inr (replies (MappingProbes r) \<noteq> [] \<and>
                (8 / 10 :: real) \<le>
                  real (length (filter port_preserved (replies (MappingProbes r)))) /
                  real (length (replies (MappingProbes r)))) \<and>
         (replies (MappingProbes r) = [] \<longrightarrow> mappingPreservesSourcePort r = Inr False)"
proof -
  define t where "t = int (length (replies (MappingProbes r)))"
  define p where "p = int (length (filter port_preserved (replies (MappingProbes r))))"
  have loop: "mappingPreservesSourcePort_loop 0 0 (MappingProbes r) = Inr (t, p)"
    using mappingPreservesSourcePort_loop_counts [OF wf, of 0 0] by (simp add: t_def p_def)
  have res: "mappingPreservesSourcePort r =
      Inr (float64_ge (float64_div (float64_of_int p) (float64_of_int t)) (float64_const (8 / 10)))"
    by (simp add: mappingPreservesSourcePort_def loop)
  have p0: "0 \<le> p" and pt: "p \<le> t" by (simp_all add: p_def t_def)
  have "t \<le> int (length (MappingProbes r))"
    unfolding t_def using length_replies_le [of "MappingProbes r"] by simp
  also have "\<dots> < 2 ^ 53" using small by (metis of_nat_less_iff of_nat_numeral of_nat_power)
  finally have t53: "t < 2 ^ 53" .
  show ?thesis
  proof (cases "replies (MappingProbes r) = []")
    case True
    then have "t = 0" "p = 0" by (simp_all add: t_def p_def)
    then have "mappingPreservesSourcePort r = Inr False"
      unfolding res by (simp add: float64_of_int_def round64_def)
    then show ?thesis using True by simp
  next
    case False
    then have t0: "0 < t" by (simp add: t_def)
    have "float64_ge (float64_div (float64_of_int p) (float64_of_int t)) (float64_const (8 / 10))
            \<longleftrightarrow> 4 * t \<le> 5 * p"
      by (rule float64_ratio_ge_0_8 [OF p0 pt t0 t53])
    also have "\<dots> \<longleftrightarrow> real_of_int (4 * t) \<le> real_of_int (5 * p)"
      by (simp only: of_int_le_iff)
    also have "\<dots> \<longleftrightarrow> (8 / 10 :: real) \<le> real_of_int p / real_of_int t"
      using t0 by (simp add: field_simps)
    finally have "float64_ge (float64_div (float64_of_int p) (float64_of_int t)) (float64_const (8 / 10))
            \<longleftrightarrow> (8 / 10 :: real) \<le> real_of_int p / real_of_int t" .
    then show ?thesis
      unfolding res using False by (simp add: t_def p_def)
  qed
qed

theorem preserves_source_port_ratio_witness:
  "mappingPreservesSourcePort four_of_five_result = Inr True"
proof -
  have wf: "\<forall>p\<in>set (MappingProbes four_of_five_result). \<not> Timeout p \<longrightarrow> Mapped p \<noteq> None"
    by (simp add: four_of_five_result_def preserved_probe_def moved_probe_def)
  have small: "length (MappingProbes four_of_five_result) < 2 ^ 53"
    by (simp add: four_of_five_result_def)
  have r: "replies (MappingProbes four_of_five_result) =
      [(example_local, \<lparr>IP = IPv4 203 0 113 7, Port = 50000, Zone = []\<rparr>, example_dest),
       (example_local, \<lparr>IP = IPv4 203 0 113 7, Port = 50000, Zone = []\<rparr>, example_dest),
       (example_local, \<lparr>IP = IPv4 203 0 113 7, Port = 1024, Zone = []\<rparr>,
          \<lparr>IP = [8, 8, 4, 4], Port = 80, Zone = []\<rparr>),
       (example_local, \<lparr>IP = IPv4 203 0 113 7, Port = 50000, Zone = []\<rparr>, example_dest),
       (example_local, \<lparr>IP = IPv4 203 0 113 7, Port = 50000, Zone = []\<rparr>, example_dest)]"
    by (simp add: four_of_five_result_def preserved_probe_def moved_probe_def)
  have f: "length (filter port_preserved (replies (MappingProbes four_of_five_result))) = 4"
    unfolding r by (simp add: port_preserved_def example_local_def)
  have l: "length (replies (MappingProbes four_of_five_result)) = 5"
    unfolding r by simp
  have ne: "replies (MappingProbes four_of_five_result) \<noteq> []"
    unfolding r by simp
  show ?thesis
    using preserves_source_port_ratio [OF wf small] ne by (simp add: f l)
qed

section \<open>Results without any reply\<close>

lemma noData_loop_all_timeout: "\<forall>p\<in>set ps. Timeout p \<Longrightarrow> noData_loop ps"
  by (induction ps) auto

lemma noNAT_loop_all_timeout: "\<forall>p\<in>set ps. Timeout p \<Longrightarrow> noNAT_loop ips ps = Inr True"
  by (induction ps) auto

lemma mappingVariesByDestIP_loop_all_timeout:
  "\<forall>p\<in>set ps. Timeout p \<Longrightarrow> mappingVariesByDestIP_loop l ri mi mp ps = Inr False"
  by (induction ps) auto

lemma mappingVariesByDestPort_loop_all_timeout:
  "\<forall>p\<in>set ps. Timeout p \<Longrightarrow> mappingVariesByDestPort_loop l rp mi mp ps = Inr False"
  by (induction ps) auto

lemma mappingPreservesSourcePort_loop_all_timeout:
  "\<forall>p\<in>set ps. Timeout p \<Longrightarrow> mappingPreservesSourcePort_loop t n ps = Inr (t, n)"
  by (induction ps) auto

lemma multiplePublicIPs_loop_all_timeout:
  "\<forall>p\<in>set ps. Timeout p \<Longrightarrow> multiplePublicIPs_loop s ps = Inr s"
  by (induction ps) auto

text \<open>
  When every mapping probe of a result is a timeout (in particular when there is none),
  \<open>Analyze\<close> returns an analysis, and in it both \<open>NoData\<close> and \<open>NoNAT\<close> are
  true.
\<close>

lemma all_timeouts_no_data_no_nat:
  assumes "\<forall>probe\<in>set (MappingProbes r). Timeout probe"
  shows "\<exists>a. Analyze r = Inr a \<and> NoData a \<and> NoNAT a"
proof -
  have "noData r"
    using assms by (simp add: noData_def noData_loop_all_timeout)
  moreover have "noNAT r = Inr True"
    using assms by (simp add: noNAT_def noNAT_loop_all_timeout)
  moreover have "mappingVariesByDestIP r = Inr False"
    using assms by (simp add: mappingVariesByDestIP_def mappingVariesByDestIP_loop_all_timeout)
  moreover have "mappingVariesByDestPort r = Inr False"
    using assms by (simp add: mappingVariesByDestPort_def mappingVariesByDestPort_loop_all_timeout)
  moreover have "\<exists>b. mappingPreservesSourcePort r = Inr b"
    using assms
    by (simp add: mappingPreservesSourcePort_def mappingPreservesSourcePort_loop_all_timeout)
  moreover have "multiplePublicIPs r = Inr False"
    using assms by (simp add: multiplePublicIPs_def multiplePublicIPs_loop_all_timeout)
  ultimately show ?thesis
    by (auto simp: Analyze_def)
qed

lemma noData_loop_iff: "noData_loop ps \<longleftrightarrow> (\<forall>p\<in>set ps. Timeout p)"
  by (induction ps) auto

lemma noData_iff: "noData r \<longleftrightarrow> (\<forall>probe\<in>set (MappingProbes r). Timeout probe)"
  by (cases "MappingProbes r") (simp_all add: noData_def noData_loop_iff)

lemma Analyze_NoData: "Analyze r = Inr a \<Longrightarrow> NoData a = noData r"
  by (auto simp: Analyze_def split: sum.splits)

text \<open>
  Claim C10. \<open>noData\<close> holds exactly when every mapping probe of the result is a
  timeout (in particular when there is none). On such a result \<open>Analyze\<close> returns an
  analysis in which both \<open>NoData\<close> and \<open>NoNAT\<close> are true; and whenever \<open>Analyze\<close>
  returns an analysis with \<open>NoData\<close> true, its \<open>NoNAT\<close> is true as well.
\<close>

theorem no_data_implies_no_nat:
  "(noData r \<longleftrightarrow> (\<forall>probe\<in>set (MappingProbes r). Timeout probe)) \<and>
   ((\<forall>probe\<in>set (MappingProbes r). Timeout probe) \<longrightarrow>
      (\<exists>a. Analyze r = Inr a \<and> NoData a \<and> NoNAT a)) \<and>
   (\<forall>a. Analyze r = Inr a \<and> NoData a \<longrightarrow> NoNAT a)"
proof -
  have 1: "noData r \<longleftrightarrow> (\<forall>probe\<in>set (MappingProbes r). Timeout probe)"
    by (rule noData_iff)
  have 2: "(\<forall>probe\<in>set (MappingProbes r). Timeout probe) \<longrightarrow>
      (\<exists>a. Analyze r = Inr a \<and> NoData a \<and> NoNAT a)"
    using all_timeouts_no_data_no_nat by blast
  have 3: "\<forall>a. Analyze r = Inr a \<and> NoData a \<longrightarrow> NoNAT a"
  proof (intro allI impI)
    fix a assume h: "Analyze r = Inr a \<and> NoData a"
    then have "noData r" using Analyze_NoData by blast
    then have "\<forall>probe\<in>set (MappingProbes r). Timeout probe" using 1 by blast
    then obtain a' where "Analyze r = Inr a'" "NoNAT a'" using 2 by blast
    then show "NoNAT a" using h by simp
  qed
  show ?thesis using 1 2 3 by blast
qed

theorem no_data_implies_no_nat_witness:
  "(\<exists>a. Analyze all_timeout_result = Inr a \<and> NoData a \<and> NoNAT a) \<and>
   noData all_timeout_result \<and> \<not> noData varies_by_ip_result"
proof -
  have h: "\<forall>probe\<in>set (MappingProbes all_timeout_result). Timeout probe"
    by (simp add: all_timeout_result_def)
  have n: "\<not> (\<forall>probe\<in>set (MappingProbes varies_by_ip_result). Timeout probe)"
    by (simp add: varies_by_ip_result_def)
  show ?thesis
    using no_data_implies_no_nat [of all_timeout_result] no_data_implies_no_nat [of varies_by_ip_result]
      h n by blast
qed

section \<open>Request frames\<close>

lemma transmit_steps_length:
  "length req = 180 \<Longrightarrow> f \<in> set (transmit_steps cycle req sched) \<Longrightarrow> length (snd f) = 180"
proof (induction sched arbitrary: req)
  case Nil
  then show ?case by simp
next
  case (Cons d sched)
  let ?req = "if cycle then req[0 := (req ! 0 + 1) mod 4] else req"
  have len: "length ?req = 180" using Cons.prems by simp
  from Cons.prems have "f = (d, ?req) \<or> f \<in> set (transmit_steps cycle ?req sched)"
    by (simp add: Let_def)
  then show ?case
    using len Cons.IH [OF len] by auto
qed

lemma transmit_steps_nocycle:
  "map snd (transmit_steps False req sched) = replicate (length sched) req"
  by (induction sched arbitrary: req) (auto simp: Let_def)

lemma transmit_steps_cycle:
  "req \<noteq> [] \<Longrightarrow> req ! 0 = of_nat (k mod 4) \<Longrightarrow>
   map (\<lambda>f. f ! 0) (map snd (transmit_steps True req (replicate n dest))) =
   map (\<lambda>i. of_nat ((k + i + 1) mod 4)) [0..<n]"
proof (induction n arbitrary: req k)
  case 0
  then show ?case by simp
next
  case (Suc n)
  let ?req = "req[0 := (req ! 0 + 1) mod 4]"
  have b: "(of_nat (k mod 4) + 1 :: byte) mod 4 = of_nat (Suc k mod 4)"
  proof -
    have "k mod 4 = 0 \<or> k mod 4 = 1 \<or> k mod 4 = 2 \<or> k mod 4 = 3" by arith
    then show ?thesis
      by (elim disjE) (simp_all add: mod_Suc)
  qed
  have r0: "?req ! 0 = of_nat (Suc k mod 4)"
    using Suc.prems b by (cases req) simp_all
  have ne: "?req \<noteq> []" using Suc.prems by simp
  have "map (\<lambda>f. f ! 0) (map snd (transmit_steps True ?req (replicate n dest))) =
        map (\<lambda>i. of_nat ((Suc k + i + 1) mod 4)) [0..<n]"
    by (rule Suc.IH [OF ne r0])
  moreover have "map (\<lambda>i. of_nat ((k + i + 1) mod 4) :: byte) [0..<Suc n] =
     of_nat ((k + 1) mod 4) # map (\<lambda>i. of_nat ((Suc k + i + 1) mod 4)) [0..<n]"
    by (simp add: upt_conv_Cons map_Suc_upt [symmetric] del: upt_Suc)
  ultimately show ?case
    using r0 by (simp add: Let_def del: upt_Suc)
qed

text \<open>
  Claim C6, as the code has it. In the firewall phase the byte is bumped before the
  frame is written, so the \<open>i\<close>-th frame sent (counting from 0) carries
  \<open>(i + 1) mod 4\<close> in byte 0: the sequence is 1, 2, 3, 0, 1, ... and every frame has
  180 bytes. In the mapping phase every frame sent is 180 zero bytes.
\<close>

theorem request_byte0_sequence:
  "map (\<lambda>f. f ! 0) (firewall_frames dest n) = map (\<lambda>i. of_nat ((i + 1) mod 4)) [0..<n] \<and>
   (\<forall>f\<in>set (firewall_frames dest n). length f = 180) \<and>
   (\<forall>f\<in>set (mapping_frames sched). f = replicate 180 0)"
proof -
  have "map (\<lambda>f. f ! 0) (firewall_frames dest n) = map (\<lambda>i. of_nat ((0 + i + 1) mod 4)) [0..<n]"
    unfolding firewall_frames_def transmit_def
    by (rule transmit_steps_cycle) simp_all
  moreover have "\<forall>f\<in>set (firewall_frames dest n). length f = 180"
    unfolding firewall_frames_def transmit_def
    using transmit_steps_length [of "replicate 180 0" _ True "replicate n dest"] by auto
  moreover have "\<forall>f\<in>set (mapping_frames sched). f = replicate 180 0"
    by (simp add: mapping_frames_def transmit_def transmit_steps_nocycle)
  ultimately show ?thesis by simp
qed

theorem request_byte0_sequence_witness:
  "map (\<lambda>f. f ! 0) (firewall_frames example_dest 5) = [1, 2, 3, 0, 1] \<and>
   set (mapping_frames [example_dest, example_dest]) \<subseteq> {replicate 180 0}"
  using request_byte0_sequence [of example_dest 5 "[example_dest, example_dest]"]
  by (auto simp: upt_rec)

text \<open>
  The first frame of the firewall phase carries 1 in byte 0, not 0.
\<close>

theorem first_firewall_frame_byte0:
  "hd (firewall_frames example_dest 1) ! 0 = 1"
  by (simp add: firewall_frames_def transmit_def)

section \<open>The mapping prober's result\<close>

text \<open>
  Whatever arrives on the sockets, no record of a list returned by \<open>probeOneMapping\<close>
  or \<open>probeMapping\<close> is a timeout record.
\<close>

lemma receive_loop_no_timeout:
  "\<forall>p\<in>set ret. \<not> Timeout p \<Longrightarrow>
   \<forall>p\<in>set (fst (receive_loop loc seen seenByDest ret pkts)). \<not> Timeout p"
proof (induction pkts arbitrary: seen seenByDest ret)
  case Nil
  then show ?case by simp
next
  case (Cons pkt rest)
  define probe where "probe = \<lparr>Local = copyUDPAddr loc,
     Mapped = Some (copyUDPAddr (decode_mapped (payload pkt))),
     Remote = copyUDPAddr (src pkt), Timeout = False\<rparr>"
  have step: "receive_loop loc seen seenByDest ret (pkt # rest) =
     (if min (length (payload pkt)) 1500 \<noteq> 18 then receive_loop loc seen seenByDest ret rest
      else if key probe \<notin> seen
        then receive_loop loc (insert (key probe) seen)
               (insert (UDPAddr_String (Some (src pkt))) seenByDest) (ret @ [probe]) rest
      else receive_loop loc seen seenByDest ret rest)"
    by (simp add: Let_def probe_def)
  have ext: "\<forall>p\<in>set (ret @ [probe]). \<not> Timeout p"
    using Cons.prems by (simp add: probe_def)
  show ?case
    unfolding step using Cons.IH [OF Cons.prems] Cons.IH [OF ext] by simp
qed

lemma probeOneMapping_no_timeout:
  assumes "probeOneMapping dests run = Inr ps"
  shows "\<forall>p\<in>set ps. \<not> Timeout p"
proof -
  have "ps = fst (receive_loop (local_addr run) {} {} [] (packets run))"
    using assms
    by (simp add: probeOneMapping_def split: if_splits prod.splits read_end.splits)
  then show ?thesis
    using receive_loop_no_timeout [of "[]" "local_addr run" "{}" "{}" "packets run"] by simp
qed

lemma probeMapping_collect_no_timeout:
  "\<forall>p\<in>set ret. \<not> Timeout p \<Longrightarrow>
   \<forall>res\<in>set results. \<forall>ps. res = Inr ps \<longrightarrow> (\<forall>p\<in>set ps. \<not> Timeout p) \<Longrightarrow>
   probeMapping_collect ret results = Inr out \<Longrightarrow> \<forall>p\<in>set out. \<not> Timeout p"
proof (induction results arbitrary: ret)
  case Nil
  then show ?case by simp
next
  case (Cons res results)
  from Cons.prems(3) obtain ps where ps: "res = Inr ps"
    by (cases res) simp_all
  have a: "\<forall>p\<in>set (ret @ ps). \<not> Timeout p"
    using Cons.prems(1,2) ps by auto
  have b: "\<forall>res\<in>set results. \<forall>ps. res = Inr ps \<longrightarrow> (\<forall>p\<in>set ps. \<not> Timeout p)"
    using Cons.prems(2) by simp
  have c: "probeMapping_collect (ret @ ps) results = Inr out"
    using Cons.prems(3) ps by simp
  show ?case by (rule Cons.IH [OF a b c])
qed

lemma probeMapping_no_timeout:
  assumes "probeMapping dests runs = Inr out"
  shows "\<forall>p\<in>set out. \<not> Timeout p"
proof -
  have "\<forall>res\<in>set (map (probeOneMapping dests) runs). \<forall>ps. res = Inr ps \<longrightarrow> (\<forall>p\<in>set ps. \<not> Timeout p)"
    using probeOneMapping_no_timeout by auto
  then show ?thesis
    using probeMapping_collect_no_timeout [of "[]" "map (probeOneMapping dests) runs" out] assms
    by (simp add: probeMapping_def)
qed

text \<open>
  Claim C1 at a run of one socket and one destination from which nothing arrives. The
  deferred closure builds the timeout record for the pair, but the list handed back by
  \<open>probeOneMapping\<close>, and with it the list of \<open>probeMapping\<close>, is empty: it holds
  neither a timeout record nor a reply for the pair.
\<close>

theorem timeout_records_not_returned:
  "probeMapping [example_dest] [silent_run] = Inr [] \<and>
   ret_after_defer [example_dest] silent_run =
     [\<lparr>Local = example_local, Mapped = None, Remote = example_dest, Timeout = True\<rparr>]"
  by (simp add: probeMapping_def probeOneMapping_def ret_after_defer_def silent_run_def
      copyUDPAddr_def example_dest_def example_local_def)

section \<open>The reflection codec\<close>

lemma Uint16_PutUint16: "length b = 2 \<Longrightarrow> Uint16 (PutUint16 b v) = v"
proof -
  assume "length b = 2"
  then obtain x y where b: "b = [x, y]"
    by (cases b; cases "tl b") auto
  show ?thesis
    unfolding b Uint16_def PutUint16_def
    by (rule bit_word_eqI) (auto simp: bit_simps)
qed

lemma To16_equal:
  "length p = 4 \<or> length p = 16 \<Longrightarrow> length (To16 p) = 16 \<and> IP_Equal (To16 p) p"
proof -
  assume "length p = 4 \<or> length p = 16"
  then show ?thesis
  proof
    assume l: "length p = 4"
    then obtain a b c d where p: "p = [a, b, c, d]"
      by (cases p; cases "tl p"; cases "tl (tl p)"; cases "tl (tl (tl p))") auto
    show ?thesis
      by (simp add: p To16_def IP_Equal_def IPv4_def v4InV6Prefix_def)
  next
    assume "length p = 16"
    then show ?thesis by (simp add: To16_def IP_Equal_def)
  qed
qed


lemma To4_To16: "length (To4 p) = 4 \<Longrightarrow> To4 (To16 p) = To4 p \<and> IP_Equal (To16 p) (To4 p)"
proof -
  assume a: "length (To4 p) = 4"
  show ?thesis
  proof (cases "length p = 4")
    case True
    then obtain a b c d where p: "p = [a, b, c, d]"
      by (cases p; cases "tl p"; cases "tl (tl p)"; cases "tl (tl (tl p))") auto
    show ?thesis
      by (simp add: p To16_def To4_def IP_Equal_def IPv4_def v4InV6Prefix_def isZeros_def)
  next
    case False
    with a have l: "length p = 16" and z: "isZeros (take 10 p)" "p ! 10 = 0xff" "p ! 11 = 0xff"
      by (auto simp: To4_def split: if_splits)
    have t10: "take 10 p = replicate 10 0"
      using l z by (intro replicate_eqI) (auto simp: isZeros_def list_all_iff)
    have t11: "take 11 p = take 10 p @ [p ! 10]"
      using take_Suc_conv_app_nth [of 10 p] l by simp
    have "take 12 p = take 11 p @ [p ! 11]"
      using take_Suc_conv_app_nth [of 11 p] l by simp
    then have "take 12 p = v4InV6Prefix"
      using t10 t11 z by (simp add: v4InV6Prefix_def numeral_eq_Suc)
    then show ?thesis
      using l z False by (simp add: To16_def To4_def IP_Equal_def)
  qed
qed

lemma reflection_eq:
  assumes len: "length (IP addr) = 4 \<or> length (IP addr) = 16" and buf: "18 \<le> length buf"
  shows "reflection buf addr =
           To16 (IP addr) @ PutUint16 (take 2 (drop 16 buf)) (word_of_int (Port addr))"
proof -
  have t: "length (To16 (IP addr)) = 16"
    using To16_equal [OF len] by simp
  have c: "copy_bytes (take 16 buf) (To16 (IP addr)) = To16 (IP addr)"
    using t buf by (simp add: copy_bytes_def)
  have p: "length (PutUint16 (take 2 (drop 16 buf)) (word_of_int (Port addr))) = 2"
    using buf by (simp add: PutUint16_def)
  show ?thesis
    using t p by (simp add: reflection_def c Let_def)
qed

text \<open>
  Claim C8. For a client endpoint whose address has 4 or 16 bytes and whose port lies in
  0..65535, the frame the server writes has 18 bytes, and the endpoint the client decodes
  from it has the same port and an address equal (\<open>IP.Equal\<close>) to the original; when
  the original is an IPv4 address, in 4-byte or in IPv6-mapped form, the decoded address
  is equal to that IPv4 address and \<open>To4\<close> recovers it.
\<close>

theorem reflection_roundtrip:
  assumes len: "length (IP addr) = 4 \<or> length (IP addr) = 16"
    and port: "0 \<le> Port addr" "Port addr \<le> 65535"
    and buf: "18 \<le> length buf"
  shows "length (reflection buf addr) = 18 \<and>
         IP_Equal (IP (copyUDPAddr (decode_mapped (reflection buf addr)))) (IP addr) \<and>
         Port (copyUDPAddr (decode_mapped (reflection buf addr))) = Port addr \<and>
         (length (To4 (IP addr)) = 4 \<longrightarrow>
            IP_Equal (IP (copyUDPAddr (decode_mapped (reflection buf addr)))) (To4 (IP addr)) \<and>
            To4 (IP (copyUDPAddr (decode_mapped (reflection buf addr)))) = To4 (IP addr))"
proof -
  let ?v = "word_of_int (Port addr) :: 16 word"
  let ?b = "take 2 (drop 16 buf)"
  have r: "reflection buf addr = To16 (IP addr) @ PutUint16 ?b ?v"
    by (rule reflection_eq [OF len buf])
  have t: "length (To16 (IP addr)) = 16" and e: "IP_Equal (To16 (IP addr)) (IP addr)"
    using To16_equal [OF len] by simp_all
  have b2: "length ?b = 2" using buf by simp
  have p: "length (PutUint16 ?b ?v) = 2"
    using b2 by (simp add: PutUint16_def)
  have ip: "IP (copyUDPAddr (decode_mapped (reflection buf addr))) = To16 (IP addr)"
    using t by (simp add: r copyUDPAddr_def decode_mapped_def)
  have "Uint16 (take 2 (drop 16 (reflection buf addr))) = ?v"
    using t p Uint16_PutUint16 [OF b2] by (simp add: r)
  moreover have "uint ?v = Port addr"
    using port by (simp add: uint_word_of_int take_bit_int_eq_self)
  ultimately have pt: "Port (copyUDPAddr (decode_mapped (reflection buf addr))) = Port addr"
    by (simp add: copyUDPAddr_def decode_mapped_def)
  have "length (reflection buf addr) = 18"
    using t p by (simp add: r)
  then show ?thesis
    using ip e pt To4_To16 [of "IP addr"] by simp
qed

theorem reflection_roundtrip_witness:
  "IP_Equal (IP (copyUDPAddr (decode_mapped (reflection (replicate 1500 0) mapped_client))))
     [203, 0, 113, 7] \<and>
   Port (copyUDPAddr (decode_mapped (reflection (replicate 1500 0) mapped_client))) = 50000"
proof -
  have l: "length (IP mapped_client) = 4 \<or> length (IP mapped_client) = 16"
    by (simp add: mapped_client_def IPv4_def v4InV6Prefix_def)
  have p: "0 \<le> Port mapped_client" "Port mapped_client \<le> 65535"
    by (simp_all add: mapped_client_def)
  have b: "18 \<le> length (replicate 1500 (0 :: byte))" by simp
  have t: "To4 (IP mapped_client) = [203, 0, 113, 7]"
    by (simp add: mapped_client_def IPv4_def v4InV6Prefix_def To4_def isZeros_def)
  show ?thesis
    using reflection_roundtrip [OF l p b] t by (simp add: mapped_client_def)
qed

section \<open>Anonymization\<close>

subsection \<open>The closure's state and the closed form\<close>

lemma index_of_append_mem: "s \<in> set ks \<Longrightarrow> index_of s (ks @ ys) = index_of s ks"
  by (induction ks) auto

lemma index_of_append_fresh: "s \<notin> set ks \<Longrightarrow> index_of s (ks @ s # ys) = length ks"
  by (induction ks) auto

lemma index_of_less: "s \<in> set ks \<Longrightarrow> index_of s ks < length ks"
  by (induction ks) auto

lemma nth_index_of: "s \<in> set ks \<Longrightarrow> ks ! index_of s ks = s"
  by (induction ks) auto

lemma prefix_keys_step: "prefix ks (keys_step ks x)"
  by (simp add: keys_step_def)

lemma prefix_fresh_keys: "prefix ks (fresh_keys ks xs)"
proof (induction xs arbitrary: ks)
  case Nil
  then show ?case by simp
next
  case (Cons x xs)
  have "prefix ks (keys_step ks x)" by (rule prefix_keys_step)
  also have "prefix (keys_step ks x) (fresh_keys (keys_step ks x) xs)" by (rule Cons.IH)
  finally show ?case by simp
qed

lemma fresh_keys_append: "fresh_keys ks (xs @ ys) = fresh_keys (fresh_keys ks xs) ys"
  by (induction xs arbitrary: ks) auto

lemma counter_step:
  "(if (of_nat (k + 1) + 1 :: byte) = 0 then of_nat (1 + (k + 1) div 256) + 1
    else of_nat (1 + (k + 1) div 256)) = (of_nat (1 + (k + 2) div 256) :: byte)"
proof -
  have k2: "k + 2 = Suc (k + 1)" by simp
  have z: "(of_nat (k + 1) + 1 :: byte) = 0 \<longleftrightarrow> Suc (k + 1) mod 256 = 0"
  proof -
    have "(of_nat (k + 1) + 1 :: byte) = of_nat (Suc (k + 1))" by simp
    moreover have "(of_nat (Suc (k + 1)) :: byte) = 0 \<longleftrightarrow> Suc (k + 1) mod 256 = 0"
      using word_of_nat_eq_0_iff [where 'a = 8, of "Suc (k + 1)"] by (simp add: dvd_eq_mod_eq_0)
    ultimately show ?thesis by (simp only:)
  qed
  have d: "Suc (k + 1) div 256 =
      (if Suc (k + 1) mod 256 = 0 then Suc ((k + 1) div 256) else (k + 1) div 256)"
    by (rule div_Suc)
  show ?thesis
  proof (cases "Suc (k + 1) mod 256 = 0")
    case True
    then have "Suc (k + 1) div 256 = Suc ((k + 1) div 256)" using d by (simp only: if_True simp_thms)
    then have "(of_nat (1 + (k + 2) div 256) :: byte) = of_nat (1 + (k + 1) div 256) + 1"
      unfolding k2 by simp
    moreover have "(of_nat (k + 1) + 1 :: byte) = 0" by (rule iffD2 [OF z True])
    ultimately show ?thesis by (simp only: if_True simp_thms)
  next
    case False
    then have "Suc (k + 1) div 256 = (k + 1) div 256" using d by (simp only: if_False simp_thms)
    then have "(of_nat (1 + (k + 2) div 256) :: byte) = of_nat (1 + (k + 1) div 256)"
      unfolding k2 by simp
    moreover have "(of_nat (k + 1) + 1 :: byte) \<noteq> 0" using False by (simp only: z not_False_eq_True)
    ultimately show ?thesis by (simp only: if_False simp_thms)
  qed
qed

lemma anonymize_step:
  assumes inv: "anon_inv ks st" and pre: "prefix (keys_step ks x) K"
  shows "fst (anonymize x st) = replacement K x \<and> anon_inv (keys_step ks x) (snd (anonymize x st))"
proof (cases "passes x")
  case True
  then show ?thesis
    using inv by (simp add: anonymize_def passes_def replacement_def keys_step_def)
next
  case np: False
  then have np': "\<not> (length x = 0 \<or> IsUnspecified x)" by (simp add: passes_def)
  show ?thesis
  proof (cases "IP_String x \<in> set ks")
    case True
    then have ks': "keys_step ks x = ks" by (simp add: keys_step_def)
    from pre obtain ys where K: "K = ks @ ys" by (auto simp: ks' prefix_def)
    have "ips_of st (IP_String x) = Some (generated (index_of (IP_String x) ks))"
      using inv True by (simp add: anon_inv_def key_map_def)
    moreover have "index_of (IP_String x) K = index_of (IP_String x) ks"
      using True by (simp add: K index_of_append_mem)
    ultimately show ?thesis
      using inv np np' by (simp add: anonymize_def replacement_def ks')
  next
    case False
    then have ks': "keys_step ks x = ks @ [IP_String x]"
      using np by (simp add: keys_step_def)
    from pre obtain ys where K: "K = ks @ IP_String x # ys" by (auto simp: ks' prefix_def)
    have none: "ips_of st (IP_String x) = None"
      using inv False by (simp add: anon_inv_def key_map_def)
    have idx: "index_of (IP_String x) K = length ks"
      using False by (simp add: K index_of_append_fresh)
    have gen: "IPv4 (a_of st) (a_of st) (b_of st) (b_of st) = generated (length ks)"
      using inv by (simp add: anon_inv_def generated_def)
    have r: "fst (anonymize x st) = replacement K x"
      using np np' none gen idx by (simp add: anonymize_def replacement_def Let_def)
    have m: "(ips_of st)(IP_String x \<mapsto> generated (length ks)) = key_map (ks @ [IP_String x])"
    proof
      fix s
      show "((ips_of st)(IP_String x \<mapsto> generated (length ks))) s = key_map (ks @ [IP_String x]) s"
        using inv False
        by (auto simp: anon_inv_def key_map_def index_of_append_mem
            index_of_append_fresh [where ys = "[]"])
    qed
    have b: "b_of st + 1 = of_nat (length (ks @ [IP_String x]) + 1)"
      using inv by (simp add: anon_inv_def)
    have ab: "a_of st = of_nat (1 + (length ks + 1) div 256)" "b_of st = of_nat (length ks + 1)"
      using inv unfolding anon_inv_def by blast+
    have l: "length (ks @ [IP_String x]) + 1 = length ks + 2" by simp
    have a: "(if b_of st + 1 = 0 then a_of st + 1 else a_of st) =
        of_nat (1 + (length (ks @ [IP_String x]) + 1) div 256)"
      unfolding l ab by (rule counter_step)
    have "snd (anonymize x st) =
        \<lparr>ips_of = (ips_of st)(IP_String x \<mapsto> generated (length ks)),
         a_of = (if b_of st + 1 = 0 then a_of st + 1 else a_of st), b_of = b_of st + 1\<rparr>"
      using np np' none gen by (simp add: anonymize_def Let_def)
    then have "anon_inv (ks @ [IP_String x]) (snd (anonymize x st))"
      unfolding anon_inv_def using m a b by simp
    then show ?thesis using r by (simp add: ks')
  qed
qed


lemma anonymize_closed:
  assumes "anon_inv ks st" and "prefix (keys_step ks x) K"
  shows "\<exists>st'. anonymize x st = (replacement K x, st') \<and> anon_inv (keys_step ks x) st'"
  using anonymize_step [OF assms] by (cases "anonymize x st") auto

lemma anonymize_addr_closed:
  assumes "anon_inv ks st" and "prefix (keys_step ks (IP u)) K"
  shows "\<exists>st'. anonymize_addr u st = (map_addr (replacement K) u, st') \<and>
               anon_inv (keys_step ks (IP u)) st'"
  using anonymize_closed [OF assms] by (auto simp: anonymize_addr_def map_addr_def)

lemma prefix_step_of_fresh: "prefix (fresh_keys (keys_step ks x) xs) K \<Longrightarrow> prefix (keys_step ks x) K"
  using prefix_fresh_keys [of "keys_step ks x" xs] by (rule prefix_order.trans)

lemma anonymize_ips_closed:
  assumes "anon_inv ks st" and "prefix (fresh_keys ks xs) K"
  shows "\<exists>st'. anonymize_ips xs st = (map (replacement K) xs, st') \<and>
               anon_inv (fresh_keys ks xs) st'"
  using assms
proof (induction xs arbitrary: ks st)
  case Nil
  then show ?case by simp
next
  case (Cons x xs)
  have p: "prefix (keys_step ks x) K"
    using Cons.prems(2) by (simp add: prefix_step_of_fresh)
  from anonymize_closed [OF Cons.prems(1) p] obtain st1
    where 1: "anonymize x st = (replacement K x, st1)" and i1: "anon_inv (keys_step ks x) st1"
    by blast
  from Cons.IH [OF i1] Cons.prems(2) obtain st2
    where 2: "anonymize_ips xs st1 = (map (replacement K) xs, st2)"
      and i2: "anon_inv (fresh_keys (keys_step ks x) xs) st2"
    by auto
  show ?case using 1 2 i2 by simp
qed

lemma anonymize_addrs_closed:
  assumes "anon_inv ks st" and "prefix (fresh_keys ks (map IP us)) K"
  shows "\<exists>st'. anonymize_addrs us st = (map (map_addr (replacement K)) us, st') \<and>
               anon_inv (fresh_keys ks (map IP us)) st'"
  using assms
proof (induction us arbitrary: ks st)
  case Nil
  then show ?case by simp
next
  case (Cons u us)
  have p: "prefix (keys_step ks (IP u)) K"
    using Cons.prems(2) by (simp add: prefix_step_of_fresh)
  from anonymize_addr_closed [OF Cons.prems(1) p] obtain st1
    where 1: "anonymize_addr u st = (map_addr (replacement K) u, st1)"
      and i1: "anon_inv (keys_step ks (IP u)) st1"
    by blast
  from Cons.IH [OF i1] Cons.prems(2) obtain st2
    where 2: "anonymize_addrs us st1 = (map (map_addr (replacement K)) us, st2)"
      and i2: "anon_inv (fresh_keys (keys_step ks (IP u)) (map IP us)) st2"
    by auto
  show ?case using 1 2 i2 by simp
qed

lemma prefix_of_fresh: "prefix (fresh_keys (fresh_keys ks xs) ys) K \<Longrightarrow> prefix (fresh_keys ks xs) K"
  using prefix_fresh_keys [of "fresh_keys ks xs" ys] by (rule prefix_order.trans)

lemma anonymize_probes_closed:
  assumes "anon_inv ks st" and "prefix (fresh_keys ks (concat (map probe_ips ps))) K"
    and "\<forall>p\<in>set ps. Mapped p \<noteq> None"
  shows "\<exists>st'. anonymize_probes ps st = Inr (map (map_probe (replacement K)) ps, st') \<and>
               anon_inv (fresh_keys ks (concat (map probe_ips ps))) st'"
  using assms
proof (induction ps arbitrary: ks st)
  case Nil
  then show ?case by simp
next
  case (Cons p ps)
  from Cons.prems(3) obtain m where m: "Mapped p = Some m" by auto
  define k1 where "k1 = keys_step ks (IP (Local p))"
  define k2 where "k2 = keys_step k1 (IP m)"
  define k3 where "k3 = keys_step k2 (IP (Remote p))"
  have all: "fresh_keys ks (concat (map probe_ips (p # ps))) =
             fresh_keys k3 (concat (map probe_ips ps))"
    by (simp add: probe_ips_def m k1_def k2_def k3_def)
  have p3: "prefix k3 K"
    using Cons.prems(2) prefix_fresh_keys [of k3 "concat (map probe_ips ps)"]
    unfolding all by (rule_tac prefix_order.trans)
  have p2: "prefix k2 K"
    using prefix_keys_step [of k2 "IP (Remote p)"] p3 unfolding k3_def
    by (rule prefix_order.trans)
  have p1: "prefix k1 K"
    using prefix_keys_step [of k1 "IP m"] p2 unfolding k2_def
    by (rule prefix_order.trans)
  from anonymize_addr_closed [OF Cons.prems(1), of "Local p" K] p1 obtain st1
    where 1: "anonymize_addr (Local p) st = (map_addr (replacement K) (Local p), st1)"
      and i1: "anon_inv k1 st1"
    unfolding k1_def by blast
  from anonymize_addr_closed [OF i1, of m K] p2 obtain st2
    where 2: "anonymize_addr m st1 = (map_addr (replacement K) m, st2)"
      and i2: "anon_inv k2 st2"
    unfolding k2_def by blast
  from anonymize_addr_closed [OF i2, of "Remote p" K] p3 obtain st3
    where 3: "anonymize_addr (Remote p) st2 = (map_addr (replacement K) (Remote p), st3)"
      and i3: "anon_inv k3 st3"
    unfolding k3_def by blast
  have pre: "prefix (fresh_keys k3 (concat (map probe_ips ps))) K"
    using Cons.prems(2) unfolding all .
  have rest: "\<forall>p\<in>set ps. Mapped p \<noteq> None" using Cons.prems(3) by simp
  from Cons.IH [OF i3 pre rest] obtain st4
    where 4: "anonymize_probes ps st3 = Inr (map (map_probe (replacement K)) ps, st4)"
      and i4: "anon_inv (fresh_keys k3 (concat (map probe_ips ps))) st4"
    by blast
  have "anonymize_probes (p # ps) st = Inr (map (map_probe (replacement K)) (p # ps), st4)"
    using 1 2 3 4 m by (simp add: map_probe_def)
  then show ?case using i4 unfolding all by blast
qed

lemma anonymize_firewall_closed:
  assumes "anon_inv ks st" and "prefix (fresh_keys ks (firewall_ips fp)) K"
  shows "fst (anonymize_firewall fp st) = map_firewall (replacement K) fp"
proof -
  define k1 where "k1 = keys_step ks (IP (Local_fw fp))"
  define k2 where "k2 = keys_step k1 (IP (Remote_fw fp))"
  have all: "fresh_keys ks (firewall_ips fp) = fresh_keys k2 (map IP (Received fp))"
    by (simp add: firewall_ips_def k1_def k2_def)
  have p2: "prefix k2 K"
    using assms(2) prefix_fresh_keys [of k2 "map IP (Received fp)"]
    unfolding all by (rule_tac prefix_order.trans)
  have p1: "prefix k1 K"
    using prefix_keys_step [of k1 "IP (Remote_fw fp)"] p2 unfolding k2_def
    by (rule prefix_order.trans)
  from anonymize_addr_closed [OF assms(1), of "Local_fw fp" K] p1 obtain st1
    where 1: "anonymize_addr (Local_fw fp) st = (map_addr (replacement K) (Local_fw fp), st1)"
      and i1: "anon_inv k1 st1"
    unfolding k1_def by blast
  from anonymize_addr_closed [OF i1, of "Remote_fw fp" K] p2 obtain st2
    where 2: "anonymize_addr (Remote_fw fp) st1 = (map_addr (replacement K) (Remote_fw fp), st2)"
      and i2: "anon_inv k2 st2"
    unfolding k2_def by blast
  have pre: "prefix (fresh_keys k2 (map IP (Received fp))) K"
    using assms(2) unfolding all .
  from anonymize_addrs_closed [OF i2 pre] obtain st3
    where 3: "anonymize_addrs (Received fp) st2 = (map (map_addr (replacement K)) (Received fp), st3)"
    by blast
  show ?thesis
    using 1 2 3 by (simp add: anonymize_firewall_def map_firewall_def)
qed

lemma anon_inv_init: "anon_inv [] anon_init"
  by (simp add: anon_inv_def anon_init_def key_map_def fun_eq_iff)

lemma Anonymize_closed_form:
  assumes "\<forall>p\<in>set (MappingProbes r). Mapped p \<noteq> None"
  shows "Anonymize r = Inr (map_result_ips (replacement (fresh_keys [] (result_ips r))) r)"
proof -
  define K where "K = fresh_keys [] (result_ips r)"
  define k1 where "k1 = fresh_keys [] (LocalIPs r)"
  define k2 where "k2 = fresh_keys k1 (concat (map probe_ips (MappingProbes r)))"
  define tail where "tail = (case FirewallProbes r of None \<Rightarrow> [] | Some fp \<Rightarrow> firewall_ips fp)"
  have K: "K = fresh_keys k2 tail"
    by (simp add: K_def result_ips_def fresh_keys_append k1_def k2_def tail_def)
  have p2: "prefix k2 K" unfolding K by (rule prefix_fresh_keys)
  have p1: "prefix k1 K"
    using prefix_fresh_keys [of k1 "concat (map probe_ips (MappingProbes r))"] p2
    unfolding k2_def by (rule prefix_order.trans)
  from anonymize_ips_closed [OF anon_inv_init, of "LocalIPs r" K] p1 obtain st1
    where 1: "anonymize_ips (LocalIPs r) anon_init = (map (replacement K) (LocalIPs r), st1)"
      and i1: "anon_inv k1 st1"
    unfolding k1_def by blast
  from anonymize_probes_closed [OF i1 _ assms, of K] p2 obtain st2
    where 2: "anonymize_probes (MappingProbes r) st1 =
                Inr (map (map_probe (replacement K)) (MappingProbes r), st2)"
      and i2: "anon_inv k2 st2"
    unfolding k2_def by blast
  show ?thesis
  proof (cases "FirewallProbes r")
    case None
    then show ?thesis
      using 1 2 by (simp add: Anonymize_def map_result_ips_def K_def)
  next
    case (Some fp)
    then have "prefix (fresh_keys k2 (firewall_ips fp)) K"
      by (simp add: K tail_def)
    from anonymize_firewall_closed [OF i2 this]
    show ?thesis
      using 1 2 Some by (simp add: Anonymize_def map_result_ips_def K_def)
  qed
qed

subsection \<open>Dotted decimal strings are injective\<close>

lemma digits_inj: "i < 10 \<Longrightarrow> j < 10 \<Longrightarrow> digits ! i = digits ! j \<Longrightarrow> i = j"
  using nth_eq_iff_index_eq [of digits i j] by (simp add: digits_def)

lemma uitoa_small: "n < 10 \<Longrightarrow> uitoa n = [digits ! n]"
  by (simp add: uitoa.simps)

lemma uitoa_large: "\<not> n < 10 \<Longrightarrow> uitoa n = uitoa (n div 10) @ [digits ! (n mod 10)]"
  by (subst uitoa.simps) simp

lemma uitoa_nonempty: "uitoa n \<noteq> []"
  by (cases "n < 10") (simp_all add: uitoa_small uitoa_large)

lemma uitoa_inj: "uitoa n = uitoa m \<Longrightarrow> n = m"
proof (induction n arbitrary: m rule: uitoa.induct)
  case (1 n)
  show ?case
  proof (cases "n < 10")
    case True
    show ?thesis
    proof (cases "m < 10")
      case m: True
      then show ?thesis using True "1.prems" digits_inj by (simp add: uitoa_small)
    next
      case m: False
      then show ?thesis
        using True "1.prems" uitoa_nonempty [of "m div 10"]
        by (simp add: uitoa_small uitoa_large)
    qed
  next
    case False
    show ?thesis
    proof (cases "m < 10")
      case m: True
      then show ?thesis
        using False "1.prems" uitoa_nonempty [of "n div 10"]
        by (simp add: uitoa_small uitoa_large)
    next
      case m: False
      from "1.prems" have e: "uitoa (n div 10) = uitoa (m div 10)"
        and d: "digits ! (n mod 10) = digits ! (m mod 10)"
        using False m by (simp_all add: uitoa_large)
      have "n div 10 = m div 10" using "1.IH" [OF False e] .
      moreover have "n mod 10 = m mod 10" using d digits_inj by simp
      ultimately show ?thesis by (metis div_mult_mod_eq)
    qed
  qed
qed

lemma digit_not_dot: "i < 10 \<Longrightarrow> digits ! i \<noteq> CHR ''.''"
proof -
  assume i: "i < 10"
  have "length digits = 10" by (simp add: digits_def)
  then have "digits ! i \<in> set digits" using i nth_mem [of i digits] by simp
  moreover have "CHR ''.'' \<notin> set digits" by (simp add: digits_def)
  ultimately show ?thesis by metis
qed

lemma uitoa_no_dot: "CHR ''.'' \<notin> set (uitoa n)"
proof (induction n rule: uitoa.induct)
  case (1 n)
  show ?case
  proof (cases "n < 10")
    case True
    then show ?thesis using digit_not_dot [of n] by (simp add: uitoa_small)
  next
    case False
    then show ?thesis
      using "1.IH" digit_not_dot [of "n mod 10"] by (simp add: uitoa_large)
  qed
qed

lemma split_at_sep:
  "c \<notin> set xs \<Longrightarrow> c \<notin> set ys \<Longrightarrow> xs @ c # r = ys @ c # r' \<Longrightarrow> xs = ys \<and> r = r'"
proof (induction xs arbitrary: ys)
  case Nil
  then show ?case by (cases ys) auto
next
  case (Cons x xs)
  then show ?case by (cases ys) auto
qed

lemma dotted_inj:
  assumes "dotted [a, b, c, d] = dotted [a', b', c', d']"
  shows "a = a' \<and> b = b' \<and> c = c' \<and> d = d'"
proof -
  let ?u = "\<lambda>x :: byte. uitoa (unat x)"
  have e: "?u a @ CHR ''.'' # (?u b @ CHR ''.'' # (?u c @ CHR ''.'' # ?u d)) =
           ?u a' @ CHR ''.'' # (?u b' @ CHR ''.'' # (?u c' @ CHR ''.'' # ?u d'))"
    using assms by (simp add: dotted_def)
  from split_at_sep [OF uitoa_no_dot uitoa_no_dot e]
  have 1: "?u a = ?u a'" and e2: "?u b @ CHR ''.'' # (?u c @ CHR ''.'' # ?u d) =
           ?u b' @ CHR ''.'' # (?u c' @ CHR ''.'' # ?u d')" by simp_all
  from split_at_sep [OF uitoa_no_dot uitoa_no_dot e2]
  have 2: "?u b = ?u b'" and e3: "?u c @ CHR ''.'' # ?u d = ?u c' @ CHR ''.'' # ?u d'" by simp_all
  from split_at_sep [OF uitoa_no_dot uitoa_no_dot e3]
  have 3: "?u c = ?u c'" and 4: "?u d = ?u d'" by simp_all
  show ?thesis
    using 1 2 3 4 by (auto dest!: uitoa_inj simp: word_unat_eq_iff)
qed

lemma To4_IPv4: "To4 (IPv4 a b c d) = [a, b, c, d]"
  by (simp add: To4_def IPv4_def v4InV6Prefix_def isZeros_def)

lemma IP_String_IPv4: "IP_String (IPv4 a b c d) = dotted [a, b, c, d]"
  by (simp add: IP_String_def To4_IPv4) (simp add: IPv4_def v4InV6Prefix_def)

lemma IP_String_4: "IP_String [a, b, c, d] = dotted [a, b, c, d]"
  by (simp add: IP_String_def To4_def)

subsection \<open>The generated addresses\<close>

lemma byte_of_nat_eq_iff: "(of_nat m :: byte) = of_nat n \<longleftrightarrow> m mod 256 = n mod 256"
  by (simp add: word_of_nat_eq_iff take_bit_eq_mod)

lemma byte_of_nat_eq_0_iff: "(of_nat m :: byte) = 0 \<longleftrightarrow> m mod 256 = 0"
  using byte_of_nat_eq_iff [of m 0] by simp

lemma passes_IPv4: "passes (IPv4 a b c d) \<longleftrightarrow> a = 0 \<and> b = 0 \<and> c = 0 \<and> d = 0"
  by (auto simp: passes_def IsUnspecified_def IP_Equal_def IPv4zero_def IPv6unspecified_def
      IPv4_def v4InV6Prefix_def numeral_eq_Suc)

lemma generated_not_passes:
  assumes "k < 65279"
  shows "\<not> passes (generated k)"
proof
  assume "passes (generated k)"
  then have a: "(1 + (k + 1) div 256) mod 256 = 0" and b: "(k + 1) mod 256 = 0"
    unfolding generated_def passes_IPv4 byte_of_nat_eq_0_iff by blast+
  have "(k + 1) div 256 < 255" using assms by simp
  then have "(1 + (k + 1) div 256) mod 256 = 1 + (k + 1) div 256" by simp
  with a show False by simp
qed

lemma IPv4_inj: "IPv4 a b c d = IPv4 a' b' c' d' \<longleftrightarrow> a = a' \<and> b = b' \<and> c = c' \<and> d = d'"
  by (simp add: IPv4_def)

lemma div_mod_eqD:
  fixes m n d :: nat
  assumes "m div d = n div d" "m mod d = n mod d"
  shows "m = n"
proof -
  have "m div d * d + m mod d = n div d * d + n mod d"
    by (simp only: assms)
  then show ?thesis by (simp only: div_mult_mod_eq)
qed

lemma generated_inj:
  assumes "i < 65536" "j < 65536" "generated i = generated j"
  shows "i = j"
proof -
  define q where "q = (i + 1) div 256"
  define q' where "q' = (j + 1) div 256"
  from assms(3) have "(of_nat (1 + q) :: byte) = of_nat (1 + q')"
    and "(of_nat (i + 1) :: byte) = of_nat (j + 1)"
    unfolding generated_def IPv4_inj q_def q'_def by blast+
  then have "(of_nat q :: byte) = of_nat q'" and "(of_nat i :: byte) = of_nat j"
    by simp_all
  then have a: "q mod 256 = q' mod 256" and b: "i mod 256 = j mod 256"
    unfolding byte_of_nat_eq_iff by blast+
  have b1: "(i + 1) mod 256 = (j + 1) mod 256"
    using b by (metis mod_add_left_eq)
  have le: "q \<le> 256" "q' \<le> 256" using assms by (simp_all add: q_def q'_def)
  have "q = q'"
  proof (cases "q = 256")
    case True
    then have "i + 1 = 65536" using assms(1) by (simp add: q_def)
    then have i: "i mod 256 = 255" by simp
    have "q' mod 256 = 0" using a True by simp
    then have "q' = 0 \<or> q' = 256" using le by (cases "q' = 256") simp_all
    then show ?thesis
    proof
      assume "q' = 0"
      then have "j + 1 < 256" by (simp add: q'_def div_eq_0_iff)
      then have "j mod 256 = j" "j < 255" by simp_all
      then show ?thesis using b i by simp
    next
      assume "q' = 256"
      then show ?thesis using True by simp
    qed
  next
    case False
    then have ql: "q < 256" using le by simp
    show ?thesis
    proof (cases "q' = 256")
      case True
      then have "j + 1 = 65536" using assms(2) by (simp add: q'_def)
      then have j: "j mod 256 = 255" by simp
      have "q mod 256 = 0" using a True by simp
      then have "q = 0" using ql by simp
      then have "i + 1 < 256" by (simp add: q_def div_eq_0_iff)
      then have "i mod 256 = i" "i < 255" by simp_all
      then show ?thesis using b j by simp
    next
      case False
      then have "q' < 256" using le by simp
      then show ?thesis using a ql by simp
    qed
  qed
  then have "i + 1 = j + 1"
    unfolding q_def q'_def using b1 by (rule div_mod_eqD)
  then show ?thesis by simp
qed

lemma IP_String_IPv4_inj:
  assumes "IP_String (IPv4 a b c d) = IP_String (IPv4 a' b' c' d')"
  shows "IPv4 a b c d = IPv4 a' b' c' d'"
proof -
  have "dotted [a, b, c, d] = dotted [a', b', c', d']"
    using assms unfolding IP_String_IPv4 .
  then have "a = a' \<and> b = b' \<and> c = c' \<and> d = d'" by (rule dotted_inj)
  then show ?thesis by simp
qed

lemma IP_String_generated_inj:
  "IP_String (generated i) = IP_String (generated j) \<Longrightarrow> generated i = generated j"
  unfolding generated_def by (rule IP_String_IPv4_inj)

lemma IPv6unspecified_not_mapped: "take 12 IPv6unspecified \<noteq> v4InV6Prefix"
proof
  assume "take 12 IPv6unspecified = v4InV6Prefix"
  then have "take 12 IPv6unspecified ! 10 = v4InV6Prefix ! 10" by simp
  then show False by (simp add: IPv6unspecified_def v4InV6Prefix_def)
qed

lemma ip4_passes: "passes [a, b, c, d] \<longleftrightarrow> a = 0 \<and> b = 0 \<and> c = 0 \<and> d = 0"
proof -
  have "IP_Equal [a, b, c, d] IPv6unspecified = False"
    using IPv6unspecified_not_mapped by (simp add: IP_Equal_def IPv6unspecified_def)
  moreover have "IP_Equal [a, b, c, d] IPv4zero \<longleftrightarrow> a = 0 \<and> b = 0 \<and> c = 0 \<and> d = 0"
    by (auto simp: IP_Equal_def IPv4zero_def IPv4_def v4InV6Prefix_def)
  ultimately show ?thesis by (simp add: passes_def IsUnspecified_def)
qed

lemma ip_of_index_not_passes: "\<not> passes (ip_of_index i)"
  by (simp add: ip_of_index_def ip4_passes)

lemma ip_of_index_inj:
  assumes "i < 2 ^ 24" "j < 2 ^ 24" "IP_String (ip_of_index i) = IP_String (ip_of_index j)"
  shows "i = j"
proof -
  from assms(3) have "dotted [10, of_nat (i div 65536), of_nat (i div 256), of_nat i] =
      dotted [10, of_nat (j div 65536), of_nat (j div 256), of_nat j]"
    unfolding ip_of_index_def IP_String_4 .
  then have "(10 :: byte) = 10 \<and> (of_nat (i div 65536) :: byte) = of_nat (j div 65536) \<and>
      (of_nat (i div 256) :: byte) = of_nat (j div 256) \<and> (of_nat i :: byte) = of_nat j"
    by (rule dotted_inj)
  then have a: "(i div 65536) mod 256 = (j div 65536) mod 256"
    and b: "(i div 256) mod 256 = (j div 256) mod 256"
    and c: "i mod 256 = j mod 256"
    unfolding byte_of_nat_eq_iff by blast+
  have "i div 65536 < 256" "j div 65536 < 256" using assms by simp_all
  then have a': "i div 65536 = j div 65536" using a by simp
  have d: "\<And>n::nat. n div 256 = (n div 65536) * 256 + (n div 256) mod 256"
  proof -
    fix n :: nat
    have "n div 65536 = (n div 256) div 256" by (simp add: div_mult2_eq)
    then show "n div 256 = (n div 65536) * 256 + (n div 256) mod 256" by simp
  qed
  have "i div 256 = (i div 65536) * 256 + (i div 256) mod 256" by (rule d)
  also have "\<dots> = (j div 65536) * 256 + (j div 256) mod 256" by (simp only: a' b)
  also have "\<dots> = j div 256" by (rule d [symmetric])
  finally have "i div 256 = j div 256" .
  then show ?thesis using c by (rule div_mod_eqD)
qed

subsection \<open>Keys and the map over a result\<close>

lemma index_of_nth_distinct: "distinct ks \<Longrightarrow> i < length ks \<Longrightarrow> index_of (ks ! i) ks = i"
proof (induction ks arbitrary: i)
  case Nil
  then show ?case by simp
next
  case (Cons k ks)
  show ?case
  proof (cases i)
    case 0
    then show ?thesis by simp
  next
    case (Suc j)
    then have "ks ! j \<in> set ks" using Cons.prems by simp
    then have "k \<noteq> ks ! j" using Cons.prems by auto
    then show ?thesis using Suc Cons by simp
  qed
qed

lemma distinct_keys_step: "distinct ks \<Longrightarrow> distinct (keys_step ks x)"
  by (simp add: keys_step_def)

lemma distinct_fresh_keys: "distinct ks \<Longrightarrow> distinct (fresh_keys ks xs)"
  by (induction xs arbitrary: ks) (simp_all add: distinct_keys_step)

lemma set_fresh_keys:
  "set (fresh_keys ks xs) = set ks \<union> {IP_String x |x. x \<in> set xs \<and> \<not> passes x}"
proof (induction xs arbitrary: ks)
  case Nil
  then show ?case by simp
next
  case (Cons x xs)
  have "set (keys_step ks x) = set ks \<union> (if passes x then {} else {IP_String x})"
    by (auto simp: keys_step_def)
  then show ?case
    unfolding fresh_keys.simps Cons.IH by auto
qed

lemma fresh_keys_family:
  assumes "\<forall>x\<in>set xs. \<not> passes x" and "distinct (map IP_String xs)"
    and "set (map IP_String xs) \<inter> set ks = {}"
  shows "fresh_keys ks xs = ks @ map IP_String xs"
  using assms
proof (induction xs arbitrary: ks)
  case Nil
  then show ?case by simp
next
  case (Cons x xs)
  have s: "keys_step ks x = ks @ [IP_String x]"
    using Cons.prems by (simp add: keys_step_def)
  have "fresh_keys (ks @ [IP_String x]) xs = (ks @ [IP_String x]) @ map IP_String xs"
    using Cons.prems by (intro Cons.IH) auto
  then show ?case by (simp add: s)
qed

lemma result_ips_map: "result_ips (map_result_ips f r) = map f (result_ips r)"
proof -
  have p: "\<And>p. probe_ips (map_probe f p) = map f (probe_ips p)"
    by (simp add: probe_ips_def map_probe_def map_addr_def split: option.splits)
  have "concat (map probe_ips (map (map_probe f) (MappingProbes r))) =
        map f (concat (map probe_ips (MappingProbes r)))"
    by (simp add: map_concat p comp_def)
  moreover have "\<And>fp. firewall_ips (map_firewall f fp) = map f (firewall_ips fp)"
    by (simp add: firewall_ips_def map_firewall_def map_addr_def)
  ultimately show ?thesis
    by (simp add: result_ips_def map_result_ips_def split: option.splits)
qed

lemma mapped_map_result_ips:
  "\<forall>p\<in>set (MappingProbes r). Mapped p \<noteq> None \<Longrightarrow>
   \<forall>p\<in>set (MappingProbes (map_result_ips f r)). Mapped p \<noteq> None"
  by (auto simp: map_result_ips_def map_probe_def)

lemma map_result_ips_cong:
  assumes "\<forall>x\<in>set (result_ips r). f x = g x"
  shows "map_result_ips f r = map_result_ips g r"
proof -
  have l: "map f (LocalIPs r) = map g (LocalIPs r)"
    using assms by (simp add: result_ips_def)
  have "\<And>p. p \<in> set (MappingProbes r) \<Longrightarrow> map_probe f p = map_probe g p"
  proof -
    fix p assume "p \<in> set (MappingProbes r)"
    then have "\<forall>x\<in>set (probe_ips p). f x = g x"
      using assms by (auto simp: result_ips_def)
    then show "map_probe f p = map_probe g p"
      by (cases "Mapped p") (simp_all add: probe_ips_def map_probe_def map_addr_def)
  qed
  then have m: "map (map_probe f) (MappingProbes r) = map (map_probe g) (MappingProbes r)"
    by simp
  have fw: "map_option (map_firewall f) (FirewallProbes r) =
            map_option (map_firewall g) (FirewallProbes r)"
  proof (cases "FirewallProbes r")
    case None
    then show ?thesis by simp
  next
    case (Some fp)
    then have "\<forall>x\<in>set (firewall_ips fp). f x = g x"
      using assms by (simp add: result_ips_def)
    then have "map_firewall f fp = map_firewall g fp"
      by (simp add: firewall_ips_def map_firewall_def map_addr_def)
    then show ?thesis using Some by simp
  qed
  show ?thesis
    by (simp add: map_result_ips_def l m fw)
qed

lemma map_result_ips_comp:
  "map_result_ips g (map_result_ips f r) = map_result_ips (\<lambda>x. g (f x)) r"
proof -
  have a: "\<And>u. map_addr g (map_addr f u) = map_addr (\<lambda>x. g (f x)) u"
    by (simp add: map_addr_def)
  have p: "\<And>p. map_probe g (map_probe f p) = map_probe (\<lambda>x. g (f x)) p"
    by (simp add: map_probe_def a option.map_comp comp_def)
  have fw: "\<And>fp. map_firewall g (map_firewall f fp) = map_firewall (\<lambda>x. g (f x)) fp"
    by (simp add: map_firewall_def a comp_def)
  show ?thesis
    by (simp add: map_result_ips_def p fw option.map_comp comp_def)
qed

subsection \<open>A second run\<close>

lemma generated_string_inj_on:
  "inj_on (\<lambda>k. IP_String (generated k)) {0..<n}" if "n \<le> 65536"
proof (rule inj_onI)
  fix i j assume "i \<in> {0..<n}" "j \<in> {0..<n}"
    and e: "IP_String (generated i) = IP_String (generated j)"
  then have "i < 65536" "j < 65536" using that by simp_all
  then show "i = j" using IP_String_generated_inj [OF e] by (rule generated_inj)
qed

lemma distinct_generated_strings:
  "n \<le> 65536 \<Longrightarrow> distinct (map (\<lambda>k. IP_String (generated k)) [0..<n])"
  by (simp add: distinct_map generated_string_inj_on)

lemma index_of_generated_string:
  assumes "n \<le> 65536" "i < n"
  shows "index_of (IP_String (generated i)) (map (\<lambda>k. IP_String (generated k)) [0..<n]) = i"
proof -
  let ?G = "map (\<lambda>k. IP_String (generated k)) [0..<n]"
  have "?G ! i = IP_String (generated i)" using assms by simp
  moreover have "index_of (?G ! i) ?G = i"
    using assms by (intro index_of_nth_distinct distinct_generated_strings) simp_all
  ultimately show ?thesis by simp
qed

lemma keys_second_pass:
  assumes len: "length K \<le> 65279"
  shows "prefix (fresh_keys ks xs) K \<Longrightarrow>
         fresh_keys (map (\<lambda>k. IP_String (generated k)) [0..<length ks]) (map (replacement K) xs) =
         map (\<lambda>k. IP_String (generated k)) [0..<length (fresh_keys ks xs)]"
proof (induction xs arbitrary: ks)
  case Nil
  then show ?case by simp
next
  case (Cons x xs)
  let ?G = "\<lambda>k. IP_String (generated k)"
  let ?ks1 = "keys_step ks x"
  have p1: "prefix ?ks1 K"
    using Cons.prems by (simp add: prefix_step_of_fresh)
  have p0: "prefix ks K"
    using prefix_keys_step [of ks x] p1 by (rule prefix_order.trans)
  have lk: "length ks \<le> length K" using p0 by (rule prefix_length_le)
  have step: "keys_step (map ?G [0..<length ks]) (replacement K x) = map ?G [0..<length ?ks1]"
  proof (cases "passes x")
    case True
    then show ?thesis by (simp add: replacement_def keys_step_def)
  next
    case np: False
    show ?thesis
    proof (cases "IP_String x \<in> set ks")
      case True
      from p0 obtain ys where K: "K = ks @ ys" by (auto simp: prefix_def)
      define i where "i = index_of (IP_String x) ks"
      have i: "i < length ks" unfolding i_def using True by (rule index_of_less)
      have r: "replacement K x = generated i"
        using np True by (simp add: replacement_def K index_of_append_mem i_def)
      have "\<not> passes (generated i)"
        using i lk len by (intro generated_not_passes) simp
      moreover have "?G i \<in> set (map ?G [0..<length ks])" using i by simp
      ultimately show ?thesis
        using True np by (simp add: r keys_step_def)
    next
      case False
      then have k1: "?ks1 = ks @ [IP_String x]" using np by (simp add: keys_step_def)
      from p1 obtain ys where K: "K = ks @ IP_String x # ys" by (auto simp: k1 prefix_def)
      define m where "m = length ks"
      have r: "replacement K x = generated m"
        using np False by (simp add: replacement_def K index_of_append_fresh m_def)
      have mK: "m < length K" by (simp add: K m_def)
      have npg: "\<not> passes (generated m)"
        using mK len by (intro generated_not_passes) simp
      have "?G m \<notin> set (map ?G [0..<m])"
      proof
        assume "?G m \<in> set (map ?G [0..<m])"
        then obtain i where i: "i < m" and e: "?G i = ?G m" by auto
        have "i < 65536" "m < 65536" using i mK len by simp_all
        then have "i = m" using IP_String_generated_inj [OF e] by (rule generated_inj)
        with i show False by simp
      qed
      then have "keys_step (map ?G [0..<m]) (generated m) = map ?G [0..<m] @ [?G m]"
        using npg by (simp add: keys_step_def)
      then show ?thesis
        by (simp add: r k1 m_def)
    qed
  qed
  have "fresh_keys (map ?G [0..<length ?ks1]) (map (replacement K) xs) =
        map ?G [0..<length (fresh_keys ?ks1 xs)]"
    using Cons.prems by (intro Cons.IH) simp
  then show ?case by (simp add: step)
qed

lemma replacement_fixed:
  assumes len: "length K \<le> 65279" and K: "K = fresh_keys [] xs" and x: "x \<in> set xs"
  shows "replacement (fresh_keys [] (map (replacement K) xs)) (replacement K x) = replacement K x"
proof (cases "passes x")
  case True
  then show ?thesis by (simp add: replacement_def)
next
  case False
  let ?G = "\<lambda>k. IP_String (generated k)"
  have K': "fresh_keys [] (map (replacement K) xs) = map ?G [0..<length K]"
    using keys_second_pass [OF len, of "[]" xs] by (simp add: K)
  define i where "i = index_of (IP_String x) K"
  have "IP_String x \<in> set K" using x False by (auto simp: K set_fresh_keys)
  then have i: "i < length K" unfolding i_def by (rule index_of_less)
  have r: "replacement K x = generated i" using False by (simp add: replacement_def i_def)
  have np: "\<not> passes (generated i)" using i len by (intro generated_not_passes) simp
  have "index_of (?G i) (map ?G [0..<length K]) = i"
    using len i by (intro index_of_generated_string) simp_all
  then have "replacement (map ?G [0..<length K]) (generated i) = generated i"
    using np by (simp add: replacement_def)
  then show ?thesis
    unfolding K' r .
qed

lemma replacement_inj:
  assumes len: "length K \<le> 65536"
    and x: "IP_String x \<in> set K" "\<not> passes x" and y: "IP_String y \<in> set K" "\<not> passes y"
    and ne: "IP_String x \<noteq> IP_String y"
  shows "replacement K x \<noteq> replacement K y"
proof
  assume e: "replacement K x = replacement K y"
  define i where "i = index_of (IP_String x) K"
  define j where "j = index_of (IP_String y) K"
  have i: "i < length K" and j: "j < length K"
    unfolding i_def j_def using x y by (simp_all add: index_of_less)
  have "generated i = generated j" using e x y by (simp add: replacement_def i_def j_def)
  moreover have "i < 65536" "j < 65536" using i j len by simp_all
  ultimately have "i = j" by (intro generated_inj)
  then have "K ! i = K ! j" by simp
  then have "IP_String x = IP_String y"
    unfolding i_def j_def using x y by (simp add: nth_index_of)
  with ne show False by simp
qed

lemma Anonymize_twice:
  assumes wf: "\<forall>p\<in>set (MappingProbes r). Mapped p \<noteq> None"
    and few: "length (fresh_keys [] (result_ips r)) \<le> 65279"
  shows "Anonymize (map_result_ips (replacement (fresh_keys [] (result_ips r))) r) =
         Inr (map_result_ips (replacement (fresh_keys [] (result_ips r))) r)"
proof -
  define K where "K = fresh_keys [] (result_ips r)"
  define r' where "r' = map_result_ips (replacement K) r"
  define K' where "K' = fresh_keys [] (result_ips r')"
  have wf': "\<forall>p\<in>set (MappingProbes r'). Mapped p \<noteq> None"
    unfolding r'_def using wf by (rule mapped_map_result_ips)
  have ips': "result_ips r' = map (replacement K) (result_ips r)"
    by (simp add: r'_def result_ips_map)
  have "Anonymize r' = Inr (map_result_ips (replacement K') r')"
    unfolding K'_def by (rule Anonymize_closed_form [OF wf'])
  also have "map_result_ips (replacement K') r' =
      map_result_ips (\<lambda>x. replacement K' (replacement K x)) r"
    by (simp add: r'_def map_result_ips_comp)
  also have "\<dots> = map_result_ips (replacement K) r"
  proof (rule map_result_ips_cong, rule ballI)
    fix x assume "x \<in> set (result_ips r)"
    then show "replacement K' (replacement K x) = replacement K x"
      unfolding K'_def ips' using few
      by (intro replacement_fixed) (simp_all add: K_def)
  qed
  finally show ?thesis by (simp add: r'_def K_def)
qed

subsection \<open>What Anonymize computes\<close>

text \<open>
  A timeout record has no mapped endpoint, and the loop over the mapping probes reads
  through it: on a result with such a record \<open>Anonymize\<close> ends in a panic.
\<close>

lemma anonymize_probes_nil_mapped:
  "\<exists>p\<in>set ps. Mapped p = None \<Longrightarrow> anonymize_probes ps st = Inl NilDeref"
proof (induction ps arbitrary: st)
  case Nil
  then show ?case by simp
next
  case (Cons p ps)
  show ?case
  proof (cases "Mapped p")
    case None
    then show ?thesis by (simp split: prod.splits)
  next
    case (Some m)
    then have "\<exists>p\<in>set ps. Mapped p = None" using Cons.prems by auto
    then have "\<And>st. anonymize_probes ps st = Inl NilDeref" by (rule Cons.IH)
    then show ?thesis using Some by (simp split: prod.splits)
  qed
qed

lemma Anonymize_nil_mapped:
  "\<exists>p\<in>set (MappingProbes r). Mapped p = None \<Longrightarrow> Anonymize r = Inl NilDeref"
  by (simp add: Anonymize_def anonymize_probes_nil_mapped split: prod.splits)

text \<open>The statements that follow are about results in which every mapping probe has one.\<close>

lemma many_locals_anonymized:
  assumes n: "n \<le> 2 ^ 24" and i: "i < n"
  shows "anonymized_local_ips (many_locals_result n) ! i = generated i"
proof -
  let ?xs = "map ip_of_index [0..<n]"
  let ?r = "many_locals_result n"
  have ips: "result_ips ?r = ?xs"
    by (simp add: result_ips_def many_locals_result_def)
  have inj: "inj_on (\<lambda>k. IP_String (ip_of_index k)) {0..<n}"
  proof (rule inj_onI)
    fix a b assume "a \<in> {0..<n}" "b \<in> {0..<n}"
      and e: "IP_String (ip_of_index a) = IP_String (ip_of_index b)"
    then have "a < 2 ^ 24" "b < 2 ^ 24" using n by simp_all
    then show "a = b" using e by (rule ip_of_index_inj)
  qed
  have d: "distinct (map IP_String ?xs)"
    using inj by (simp add: distinct_map comp_def)
  have K: "fresh_keys [] ?xs = map IP_String ?xs"
    using fresh_keys_family [of ?xs "[]"] d by (simp add: ip_of_index_not_passes)
  have "Anonymize ?r = Inr (map_result_ips (replacement (fresh_keys [] (result_ips ?r))) ?r)"
    by (rule Anonymize_closed_form) (simp add: many_locals_result_def)
  then have "anonymized_local_ips ?r = map (replacement (map IP_String ?xs)) ?xs"
    by (simp add: anonymized_local_ips_def ips K) (simp add: map_result_ips_def many_locals_result_def)
  then have "anonymized_local_ips ?r ! i = replacement (map IP_String ?xs) (ip_of_index i)"
    using i by simp
  also have "\<dots> = generated (index_of (IP_String (ip_of_index i)) (map IP_String ?xs))"
    by (simp add: replacement_def ip_of_index_not_passes)
  also have "index_of (IP_String (ip_of_index i)) (map IP_String ?xs) = i"
    using index_of_nth_distinct [OF d, of i] i by simp
  finally show ?thesis .
qed

text \<open>
  Claim C7, as the code has it. On a result whose mapping probes all carry a mapped
  endpoint, \<open>Anonymize\<close> returns the result in which every address \<open>x\<close> is replaced
  by \<open>replacement K x\<close>, \<open>K\<close> being the strings of the non-empty, specified
  addresses in the order of first occurrence: an empty or unspecified address stays as
  it is; any other address becomes the address generated for the index \<open>k\<close> of its
  string in \<open>K\<close>, which is \<open>a.a.b.b\<close> with \<open>b = (k + 1) mod 256\<close> and
  \<open>a = (1 + (k + 1) div 256) mod 256\<close> (1.1.1.1, 1.1.2.2, ..., 1.1.255.255, 2.2.0.0,
  2.2.1.1, ...); and two such addresses with the same string get the same replacement.
\<close>

theorem anonymize_replaces:
  assumes "\<forall>p\<in>set (MappingProbes r). Mapped p \<noteq> None"
  shows "Anonymize r = Inr (map_result_ips (replacement (fresh_keys [] (result_ips r))) r) \<and>
         (\<forall>x. passes x \<longrightarrow> replacement (fresh_keys [] (result_ips r)) x = x) \<and>
         (\<forall>x\<in>set (result_ips r). \<not> passes x \<longrightarrow>
            (\<exists>k < length (fresh_keys [] (result_ips r)).
               fresh_keys [] (result_ips r) ! k = IP_String x \<and>
               replacement (fresh_keys [] (result_ips r)) x = generated k)) \<and>
         (\<forall>x y. \<not> passes x \<and> \<not> passes y \<and> IP_String x = IP_String y \<longrightarrow>
            replacement (fresh_keys [] (result_ips r)) x =
            replacement (fresh_keys [] (result_ips r)) y)"
proof -
  let ?K = "fresh_keys [] (result_ips r)"
  have 1: "Anonymize r = Inr (map_result_ips (replacement ?K) r)"
    by (rule Anonymize_closed_form [OF assms])
  have 2: "\<forall>x. passes x \<longrightarrow> replacement ?K x = x"
    by (simp add: replacement_def)
  have 3: "\<forall>x\<in>set (result_ips r). \<not> passes x \<longrightarrow>
            (\<exists>k < length ?K. ?K ! k = IP_String x \<and> replacement ?K x = generated k)"
  proof (intro ballI impI)
    fix x assume x: "x \<in> set (result_ips r)" and np: "\<not> passes x"
    then have m: "IP_String x \<in> set ?K" by (auto simp: set_fresh_keys)
    show "\<exists>k < length ?K. ?K ! k = IP_String x \<and> replacement ?K x = generated k"
      using index_of_less [OF m] nth_index_of [OF m] np
      by (intro exI [of _ "index_of (IP_String x) ?K"]) (simp add: replacement_def)
  qed
  have 4: "\<forall>x y. \<not> passes x \<and> \<not> passes y \<and> IP_String x = IP_String y \<longrightarrow>
            replacement ?K x = replacement ?K y"
    by (simp add: replacement_def)
  show ?thesis using 1 2 3 4 by blast
qed

theorem anonymize_replaces_witness:
  "Anonymize nat_result =
     Inr \<lparr>LocalIPs = [IPv4 1 1 1 1, IPv4zero],
          MappingProbes =
            [\<lparr>Local = \<lparr>IP = IPv4 1 1 1 1, Port = 50000, Zone = []\<rparr>,
               Mapped = Some \<lparr>IP = IPv4 1 1 2 2, Port = 50000, Zone = []\<rparr>,
               Remote = \<lparr>IP = IPv4 1 1 3 3, Port = 443, Zone = []\<rparr>, Timeout = False\<rparr>,
             \<lparr>Local = \<lparr>IP = IPv4 1 1 1 1, Port = 50000, Zone = []\<rparr>,
               Mapped = Some \<lparr>IP = IPv4 1 1 2 2, Port = 1024, Zone = []\<rparr>,
               Remote = \<lparr>IP = IPv4 1 1 4 4, Port = 80, Zone = []\<rparr>, Timeout = False\<rparr>],
          FirewallProbes = Some \<lparr>Local_fw = \<lparr>IP = [0, 0, 0, 0], Port = 40000, Zone = []\<rparr>,
            Remote_fw = \<lparr>IP = IPv4 1 1 3 3, Port = 443, Zone = []\<rparr>,
            Received = [\<lparr>IP = IPv4 1 1 3 3, Port = 443, Zone = []\<rparr>]\<rparr>\<rparr>"
proof -
  have wf: "\<forall>p\<in>set (MappingProbes nat_result). Mapped p \<noteq> None"
    by (simp add: nat_result_def preserved_probe_def moved_probe_def)
  have e: "map_result_ips (replacement (fresh_keys [] (result_ips nat_result))) nat_result =
     \<lparr>LocalIPs = [IPv4 1 1 1 1, IPv4zero],
          MappingProbes =
            [\<lparr>Local = \<lparr>IP = IPv4 1 1 1 1, Port = 50000, Zone = []\<rparr>,
               Mapped = Some \<lparr>IP = IPv4 1 1 2 2, Port = 50000, Zone = []\<rparr>,
               Remote = \<lparr>IP = IPv4 1 1 3 3, Port = 443, Zone = []\<rparr>, Timeout = False\<rparr>,
             \<lparr>Local = \<lparr>IP = IPv4 1 1 1 1, Port = 50000, Zone = []\<rparr>,
               Mapped = Some \<lparr>IP = IPv4 1 1 2 2, Port = 1024, Zone = []\<rparr>,
               Remote = \<lparr>IP = IPv4 1 1 4 4, Port = 80, Zone = []\<rparr>, Timeout = False\<rparr>],
          FirewallProbes = Some \<lparr>Local_fw = \<lparr>IP = [0, 0, 0, 0], Port = 40000, Zone = []\<rparr>,
            Remote_fw = \<lparr>IP = IPv4 1 1 3 3, Port = 443, Zone = []\<rparr>,
            Received = [\<lparr>IP = IPv4 1 1 3 3, Port = 443, Zone = []\<rparr>]\<rparr>\<rparr>"
    by code_simp
  show ?thesis
    using anonymize_replaces [OF wf] e by simp
qed

text \<open>
  With 256 different local addresses the last one becomes 2.2.0.0, which is not of the
  form 1.1.b1.b2 with both counters in 1..255.
\<close>

theorem anonymize_256th_address:
  "anonymized_local_ips (many_locals_result 256) ! 255 = IPv4 2 2 0 0"
proof -
  have "anonymized_local_ips (many_locals_result 256) ! 255 = generated 255"
    by (rule many_locals_anonymized) simp_all
  also have "generated 255 = IPv4 2 2 0 0"
  proof -
    have z: "(256 :: byte) = 0"
      using word_of_nat_eq_0_iff [where 'a = 8, of 256] by simp
    have "generated 255 = IPv4 2 2 256 256" by (simp add: generated_def)
    then show ?thesis by (simp only: z)
  qed
  finally show ?thesis .
qed

subsection \<open>Idempotence and injectivity\<close>

text \<open>
  On a result whose mapping probes all carry a mapped endpoint, \<open>Anonymize\<close> returns a
  result \<open>r'\<close>. When the result holds at most 65279 different address strings, a
  second run on \<open>r'\<close> returns \<open>r'\<close> itself, so the string form is unchanged; when
  it holds at most 65536, any two non-empty, specified addresses of the result with
  different strings have different replacements.
\<close>

lemma anonymize_idempotent_injective:
  assumes wf: "\<forall>p\<in>set (MappingProbes r). Mapped p \<noteq> None"
  shows "\<exists>r'. Anonymize r = Inr r' \<and>
           (length (fresh_keys [] (result_ips r)) \<le> 65279 \<longrightarrow>
              (\<exists>r''. Anonymize r' = Inr r'' \<and> r'' = r' \<and> Result_String r'' = Result_String r')) \<and>
           (length (fresh_keys [] (result_ips r)) \<le> 65536 \<longrightarrow>
              (\<forall>x\<in>set (result_ips r). \<forall>y\<in>set (result_ips r).
                 \<not> passes x \<and> \<not> passes y \<and> IP_String x \<noteq> IP_String y \<longrightarrow>
                 replacement (fresh_keys [] (result_ips r)) x \<noteq>
                 replacement (fresh_keys [] (result_ips r)) y)) \<and>
           result_ips r' = map (replacement (fresh_keys [] (result_ips r))) (result_ips r)"
proof -
  let ?K = "fresh_keys [] (result_ips r)"
  let ?r' = "map_result_ips (replacement ?K) r"
  have 1: "Anonymize r = Inr ?r'"
    by (rule Anonymize_closed_form [OF wf])
  have 2: "length ?K \<le> 65279 \<longrightarrow>
      (\<exists>r''. Anonymize ?r' = Inr r'' \<and> r'' = ?r' \<and> Result_String r'' = Result_String ?r')"
    using Anonymize_twice [OF wf] by simp
  have 3: "length ?K \<le> 65536 \<longrightarrow>
      (\<forall>x\<in>set (result_ips r). \<forall>y\<in>set (result_ips r).
         \<not> passes x \<and> \<not> passes y \<and> IP_String x \<noteq> IP_String y \<longrightarrow>
         replacement ?K x \<noteq> replacement ?K y)"
  proof (intro impI ballI)
    fix x y
    assume len: "length ?K \<le> 65536" and x: "x \<in> set (result_ips r)" and y: "y \<in> set (result_ips r)"
      and h: "\<not> passes x \<and> \<not> passes y \<and> IP_String x \<noteq> IP_String y"
    have "IP_String x \<in> set ?K" "IP_String y \<in> set ?K"
      using x y h by (auto simp: set_fresh_keys)
    then show "replacement ?K x \<noteq> replacement ?K y"
      using len h by (intro replacement_inj) simp_all
  qed
  have 4: "result_ips ?r' = map (replacement ?K) (result_ips r)"
    by (rule result_ips_map)
  show ?thesis using 1 2 3 4 by blast
qed

lemma anonymize_idempotent_injective_example:
  "\<exists>r'. Anonymize nat_result = Inr r' \<and> Anonymize r' = Inr r' \<and>
        result_ips r' ! 0 \<noteq> result_ips r' ! 3"
proof -
  have wf: "\<forall>p\<in>set (MappingProbes nat_result). Mapped p \<noteq> None"
    by (simp add: nat_result_def preserved_probe_def moved_probe_def)
  have K: "fresh_keys [] (result_ips nat_result) =
      [''192.168.1.2'', ''203.0.113.7'', ''8.8.8.8'', ''8.8.4.4'']"
    by code_simp
  have ips: "result_ips nat_result =
      [[192, 168, 1, 2], IPv4zero, [192, 168, 1, 2], IPv4 203 0 113 7, [8, 8, 8, 8],
       [192, 168, 1, 2], IPv4 203 0 113 7, [8, 8, 4, 4], [0, 0, 0, 0], [8, 8, 8, 8], IPv4 8 8 8 8]"
    by (simp add: result_ips_def nat_result_def probe_ips_def firewall_ips_def
        preserved_probe_def moved_probe_def example_local_def example_dest_def)
  have s: "IP_String [192, 168, 1, 2] = ''192.168.1.2''" "IP_String (IPv4 203 0 113 7) = ''203.0.113.7''"
    by code_simp+
  have np: "\<not> passes [192, 168, 1, 2]" "\<not> passes (IPv4 203 0 113 7)"
    by (simp_all add: ip4_passes passes_IPv4)
  from anonymize_idempotent_injective [OF wf] obtain r' where
    1: "Anonymize nat_result = Inr r'"
    and 2: "length (fresh_keys [] (result_ips nat_result)) \<le> 65279 \<longrightarrow>
              (\<exists>r''. Anonymize r' = Inr r'' \<and> r'' = r' \<and> Result_String r'' = Result_String r')"
    and 3: "length (fresh_keys [] (result_ips nat_result)) \<le> 65536 \<longrightarrow>
              (\<forall>x\<in>set (result_ips nat_result). \<forall>y\<in>set (result_ips nat_result).
                 \<not> passes x \<and> \<not> passes y \<and> IP_String x \<noteq> IP_String y \<longrightarrow>
                 replacement (fresh_keys [] (result_ips nat_result)) x \<noteq>
                 replacement (fresh_keys [] (result_ips nat_result)) y)"
    and 4: "result_ips r' = map (replacement (fresh_keys [] (result_ips nat_result))) (result_ips nat_result)"
    by blast
  have a: "Anonymize r' = Inr r'" using 2 by (simp add: K)
  have "replacement (fresh_keys [] (result_ips nat_result)) [192, 168, 1, 2] \<noteq>
        replacement (fresh_keys [] (result_ips nat_result)) (IPv4 203 0 113 7)"
  proof -
    have l: "length (fresh_keys [] (result_ips nat_result)) \<le> 65536" by (simp add: K)
    have m: "[192, 168, 1, 2] \<in> set (result_ips nat_result)"
      "IPv4 203 0 113 7 \<in> set (result_ips nat_result)"
      by (simp_all add: ips)
    show ?thesis using 3 l m np s by fastforce
  qed
  then have "result_ips r' ! 0 \<noteq> result_ips r' ! 3"
    unfolding 4 by (simp add: ips)
  then show ?thesis using 1 a by blast
qed

text \<open>
  The byte counters wrap around after 65536 assignments: with 65537 different local
  addresses, more than the design supports, the first and the last address, which
  differ, are both replaced by 1.1.1.1.
\<close>

lemma anonymize_collision:
  "anonymized_local_ips (many_locals_result 65537) ! 0 =
     anonymized_local_ips (many_locals_result 65537) ! 65536 \<and>
   IP_String (LocalIPs (many_locals_result 65537) ! 0) \<noteq>
     IP_String (LocalIPs (many_locals_result 65537) ! 65536) \<and>
   \<not> passes (LocalIPs (many_locals_result 65537) ! 0) \<and>
   \<not> passes (LocalIPs (many_locals_result 65537) ! 65536)"
proof -
  have a: "anonymized_local_ips (many_locals_result 65537) ! 0 = generated 0"
    by (rule many_locals_anonymized) simp_all
  have b: "anonymized_local_ips (many_locals_result 65537) ! 65536 = generated 65536"
    by (rule many_locals_anonymized) simp_all
  have g: "generated 65536 = generated 0"
    unfolding generated_def IPv4_inj byte_of_nat_eq_iff by simp
  have l0: "LocalIPs (many_locals_result 65537) ! 0 = ip_of_index 0"
    by (simp add: many_locals_result_def)
  have l1: "LocalIPs (many_locals_result 65537) ! 65536 = ip_of_index 65536"
    by (simp add: many_locals_result_def)
  have ne: "IP_String (ip_of_index 0) \<noteq> IP_String (ip_of_index 65536)"
  proof
    assume "IP_String (ip_of_index 0) = IP_String (ip_of_index 65536)"
    then have "(0::nat) = 65536" by (intro ip_of_index_inj) simp_all
    then show False by simp
  qed
  show ?thesis
    using a b g ne by (simp add: l0 l1 ip_of_index_not_passes)
qed

text \<open>
  Within the supported number of different addresses (at most 65025) and with a mapped
  endpoint in every mapping probe, a second run changes nothing and different addresses
  get different replacements.
\<close>

lemma anonymize_supported_range:
  assumes wf: "\<forall>p\<in>set (MappingProbes r). Mapped p \<noteq> None"
    and few: "length (fresh_keys [] (result_ips r)) \<le> 65025"
  shows "\<exists>r'. Anonymize r = Inr r' \<and> Anonymize r' = Inr r' \<and>
           result_ips r' = map (replacement (fresh_keys [] (result_ips r))) (result_ips r) \<and>
           (\<forall>x\<in>set (result_ips r). \<forall>y\<in>set (result_ips r).
              \<not> passes x \<and> \<not> passes y \<and> IP_String x \<noteq> IP_String y \<longrightarrow>
              replacement (fresh_keys [] (result_ips r)) x \<noteq>
              replacement (fresh_keys [] (result_ips r)) y)"
proof -
  have a: "length (fresh_keys [] (result_ips r)) \<le> 65279"
    and b: "length (fresh_keys [] (result_ips r)) \<le> 65536"
    using few by simp_all
  from anonymize_idempotent_injective [OF wf] a b show ?thesis by blast
qed

text \<open>
  Claim C9 at a result that holds a timeout record. The result \<open>all_timeout_result\<close>
  holds exactly the record that the prober's deferred closure builds for a destination
  without a reply. Its string form is defined, but \<open>Anonymize\<close> ends in the panic of a
  nil dereference on it: there is no anonymized result, so neither a second run nor
  distinct replacements.
\<close>

theorem anonymize_timeout_record_panics:
  "Anonymize all_timeout_result = Inl NilDeref \<and>
   MappingProbes all_timeout_result = ret_after_defer [example_dest] silent_run"
proof -
  have "\<exists>p\<in>set (MappingProbes all_timeout_result). Mapped p = None"
    by (simp add: all_timeout_result_def)
  then have "Anonymize all_timeout_result = Inl NilDeref"
    by (rule Anonymize_nil_mapped)
  moreover have "MappingProbes all_timeout_result = ret_after_defer [example_dest] silent_run"
    by (simp add: all_timeout_result_def ret_after_defer_def silent_run_def copyUDPAddr_def
        example_dest_def example_local_def)
  ultimately show ?thesis by simp
qed

section \<open>Strings and equality of IPv4 addresses\<close>

text \<open>
  The prober opens IPv4 sockets only, and \<open>copyUDPAddr\<close> leaves the zone empty. For
  such endpoints the comparisons by string that the analyzer and \<open>Anonymize\<close> make
  are comparisons of the addresses themselves: two IPv4 addresses, in 4-byte or in
  IPv6-mapped form, have the same string exactly when \<open>IP.Equal\<close> holds, and two
  endpoints differ in their string exactly when their addresses or their ports differ.
\<close>

lemma length4E:
  assumes "length p = 4"
  obtains a b c d where "p = [a, b, c, d]"
  using assms by (cases p; cases "tl p"; cases "tl (tl p)"; cases "tl (tl (tl p))") auto

lemma dotted_inj4:
  assumes "length p = 4" "length q = 4" "dotted p = dotted q"
  shows "p = q"
proof -
  from assms(1) obtain a b c d where p: "p = [a, b, c, d]" by (rule length4E)
  from assms(2) obtain a' b' c' d' where q: "q = [a', b', c', d']" by (rule length4E)
  have "a = a' \<and> b = b' \<and> c = c' \<and> d = d'"
    using assms(3) unfolding p q by (rule dotted_inj)
  then show ?thesis by (simp add: p q)
qed

lemma IP_String_To4: "length (To4 x) = 4 \<Longrightarrow> IP_String x = dotted (To4 x)"
  by (auto simp: IP_String_def To4_def)

lemma mapped_form:
  assumes "length x = 16" "length (To4 x) = 4"
  shows "x = v4InV6Prefix @ To4 x"
proof -
  from assms have z: "isZeros (take 10 x)" "x ! 10 = 0xff" "x ! 11 = 0xff" and t: "To4 x = drop 12 x"
    by (auto simp: To4_def split: if_splits)
  have t10: "take 10 x = replicate 10 0"
    using assms(1) z by (intro replicate_eqI) (auto simp: isZeros_def list_all_iff)
  have t11: "take 11 x = take 10 x @ [x ! 10]"
    using take_Suc_conv_app_nth [of 10 x] assms(1) by simp
  have "take 12 x = take 11 x @ [x ! 11]"
    using take_Suc_conv_app_nth [of 11 x] assms(1) by simp
  then have "take 12 x = v4InV6Prefix"
    using t10 t11 z by (simp add: v4InV6Prefix_def numeral_eq_Suc)
  then have "take 12 x @ drop 12 x = v4InV6Prefix @ To4 x" by (simp add: t)
  then show ?thesis by simp
qed

lemma IP_Equal_iff_To4:
  assumes x: "length (To4 x) = 4" and y: "length (To4 y) = 4"
  shows "IP_Equal x y \<longleftrightarrow> To4 x = To4 y"
proof -
  have lx: "length x = 4 \<or> length x = 16" using x by (auto simp: To4_def split: if_splits)
  have ly: "length y = 4 \<or> length y = 16" using y by (auto simp: To4_def split: if_splits)
  have p: "length v4InV6Prefix = 12" by (simp add: v4InV6Prefix_def)
  consider "length x = 4" "length y = 4" | "length x = 4" "length y = 16"
    | "length x = 16" "length y = 4" | "length x = 16" "length y = 16"
    using lx ly by blast
  then show ?thesis
  proof cases
    case 1
    then show ?thesis by (simp add: IP_Equal_def To4_def)
  next
    case 2
    have fy: "y = v4InV6Prefix @ To4 y" using 2 y by (intro mapped_form)
    have "take 12 y = v4InV6Prefix" "drop 12 y = To4 y"
      using p by (subst fy, simp)+
    then show ?thesis using 2 by (simp add: IP_Equal_def To4_def)
  next
    case 3
    have fx: "x = v4InV6Prefix @ To4 x" using 3 x by (intro mapped_form)
    have "take 12 x = v4InV6Prefix" "drop 12 x = To4 x"
      using p by (subst fx, simp)+
    then show ?thesis using 3 by (auto simp: IP_Equal_def To4_def)
  next
    case 4
    have fx: "x = v4InV6Prefix @ To4 x" using 4 x by (intro mapped_form)
    have fy: "y = v4InV6Prefix @ To4 y" using 4 y by (intro mapped_form)
    have "x = y \<longleftrightarrow> To4 x = To4 y"
      by (subst fx, subst fy) simp
    then show ?thesis using 4 by (simp add: IP_Equal_def)
  qed
qed

lemma IP_String_eq_iff_Equal:
  assumes x: "length (To4 x) = 4" and y: "length (To4 y) = 4"
  shows "IP_String x = IP_String y \<longleftrightarrow> IP_Equal x y"
proof -
  have "IP_String x = IP_String y \<longleftrightarrow> dotted (To4 x) = dotted (To4 y)"
    by (simp add: IP_String_To4 x y)
  also have "\<dots> \<longleftrightarrow> To4 x = To4 y"
    using dotted_inj4 [OF x y] by auto
  also have "\<dots> \<longleftrightarrow> IP_Equal x y"
    by (rule IP_Equal_iff_To4 [OF x y, symmetric])
  finally show ?thesis .
qed

lemma uitoa_digits: "set (uitoa n) \<subseteq> set digits"
proof (induction n rule: uitoa.induct)
  case (1 n)
  have len: "length digits = 10" by (simp add: digits_def)
  show ?case
  proof (cases "n < 10")
    case True
    then have "digits ! n \<in> set digits" using len nth_mem [of n digits] by simp
    then show ?thesis using True by (simp add: uitoa_small)
  next
    case False
    have "digits ! (n mod 10) \<in> set digits" using len nth_mem [of "n mod 10" digits] by simp
    then show ?thesis using False "1.IH" by (simp add: uitoa_large)
  qed
qed

lemma uitoa_no_char:
  assumes "c \<notin> set digits"
  shows "c \<notin> set (uitoa n)"
  using assms uitoa_digits [of n] by blast

lemma Itoa_inj: "Itoa i = Itoa j \<Longrightarrow> i = j"
proof -
  assume e: "Itoa i = Itoa j"
  have m: "CHR ''-'' \<notin> set digits" by (simp add: digits_def)
  have nm: "\<And>n. uitoa n \<noteq> CHR ''-'' # uitoa (nat (- j))" "\<And>n. CHR ''-'' # uitoa (nat (- i)) \<noteq> uitoa n"
    using uitoa_no_char [OF m] by (metis list.set_intros(1))+
  consider "i < 0" "j < 0" | "i < 0" "\<not> j < 0" | "\<not> i < 0" "j < 0" | "\<not> i < 0" "\<not> j < 0"
    by blast
  then show ?thesis
  proof cases
    case 1
    then have "uitoa (nat (- i)) = uitoa (nat (- j))" using e by (simp add: Itoa_def)
    then have "nat (- i) = nat (- j)" by (rule uitoa_inj)
    then show ?thesis using 1 by simp
  next
    case 2
    then show ?thesis using e nm by (simp add: Itoa_def)
  next
    case 3
    then show ?thesis using e nm by (simp add: Itoa_def)
  next
    case 4
    then have "uitoa (nat i) = uitoa (nat j)" using e by (simp add: Itoa_def)
    then have "nat i = nat j" by (rule uitoa_inj)
    then show ?thesis using 4 by simp
  qed
qed

lemma dotted_no_colon: "CHR '':'' \<notin> set (dotted p)"
proof -
  have "CHR '':'' \<notin> set digits" by (simp add: digits_def)
  then have n: "\<And>n. CHR '':'' \<notin> set (uitoa n)" by (rule uitoa_no_char)
  have "set (dotted p) = set (uitoa (unat (p ! 0))) \<union> set (uitoa (unat (p ! 1))) \<union>
      set (uitoa (unat (p ! 2))) \<union> set (uitoa (unat (p ! 3))) \<union> {CHR ''.''}"
    unfolding dotted_def by auto
  then show ?thesis using n by simp
qed

lemma UDPAddr_String_ipv4:
  assumes "length (To4 (IP u)) = 4" "Zone u = []"
  shows "UDPAddr_String (Some u) = dotted (To4 (IP u)) @ CHR '':'' # Itoa (Port u)"
proof -
  have "length (IP u) \<noteq> 0" using assms(1) by (auto simp: To4_def split: if_splits)
  then have "ipEmptyString (IP u) = dotted (To4 (IP u))"
    using assms(1) by (simp add: ipEmptyString_def IP_String_To4)
  then show ?thesis
    using assms(2) dotted_no_colon by (simp add: UDPAddr_String_def JoinHostPort_def)
qed

lemma split_at_sep_iff:
  assumes "c \<notin> set xs" "c \<notin> set ys"
  shows "xs @ c # r = ys @ c # r' \<longleftrightarrow> xs = ys \<and> r = r'"
proof
  assume "xs @ c # r = ys @ c # r'"
  then show "xs = ys \<and> r = r'" by (rule split_at_sep [OF assms])
next
  assume "xs = ys \<and> r = r'"
  then show "xs @ c # r = ys @ c # r'" by simp
qed

lemma endpoint_differs_ipv4:
  assumes u: "length (To4 (IP u)) = 4" "Zone u = []"
    and v: "length (To4 (IP v)) = 4" "Zone v = []"
  shows "endpoint_differs u v \<longleftrightarrow> \<not> (IP_Equal (IP u) (IP v) \<and> Port u = Port v)"
proof -
  have "UDPAddr_String (Some u) = UDPAddr_String (Some v) \<longleftrightarrow>
        dotted (To4 (IP u)) @ CHR '':'' # Itoa (Port u) =
        dotted (To4 (IP v)) @ CHR '':'' # Itoa (Port v)"
    by (simp only: UDPAddr_String_ipv4 [OF u] UDPAddr_String_ipv4 [OF v])
  also have "\<dots> \<longleftrightarrow> dotted (To4 (IP u)) = dotted (To4 (IP v)) \<and> Itoa (Port u) = Itoa (Port v)"
    by (rule split_at_sep_iff [OF dotted_no_colon dotted_no_colon])
  also have "\<dots> \<longleftrightarrow> To4 (IP u) = To4 (IP v) \<and> Port u = Port v"
  proof -
    have "dotted (To4 (IP u)) = dotted (To4 (IP v)) \<longleftrightarrow> To4 (IP u) = To4 (IP v)"
      using dotted_inj4 [OF u(1) v(1)] by auto
    moreover have "Itoa (Port u) = Itoa (Port v) \<longleftrightarrow> Port u = Port v"
      using Itoa_inj by auto
    ultimately show ?thesis by (simp only:)
  qed
  also have "\<dots> \<longleftrightarrow> IP_Equal (IP u) (IP v) \<and> Port u = Port v"
    by (simp add: IP_Equal_iff_To4 [OF u(1) v(1)])
  finally show ?thesis by (simp add: endpoint_differs_def)
qed

end
